theory Spec2Isabelle
  imports Complex_Main
begin

section \<open>Numbers and rounding\<close>

text \<open>
  Numbers are reals. What the arithmetic in use adds to the exact operations is given by an
  \<open>arithmetic\<close>, which every function below takes as its first argument:
  \<^item> \<open>agg_round\<close> rounds each \<open>+\<close> and \<open>*\<close> on the elements and the accumulated fields;
  \<^item> \<open>stat_round\<close> rounds each true division \<open>/\<close> and the operations on its results;
  \<^item> \<open>div_overflows\<close> tells for which exact quotients the true division raises
    \<open>OverflowError\<close>.

  Three arithmetics are defined below. \<open>exact\<close> rounds nothing and never overflows.
  \<open>py_float\<close> is a list of Python floats: every operation rounds to binary64 (round to
  nearest, ties to even); a float division by a count does not raise. \<open>py_int\<close> is a list
  of Python integers: sums and products are exact integers of any size, the true division of
  two integers gives the nearest float and raises \<open>OverflowError\<close> when that is beyond the
  largest float, and the operations on the quotients are float operations. Infinities, NaN
  and subnormal numbers are not modelled, nor lists that mix integers and floats. Counts and
  indices are integers and are never rounded; a count is far below \<open>2 ^ 53\<close>, so its
  conversion to a float is exact.
\<close>

definition pow2 :: "int \<Rightarrow> real" where
  "pow2 k = (if 0 \<le> k then 2 ^ nat k else 1 / 2 ^ nat (- k))"

text \<open>The nearest integer, ties to the even one.\<close>

definition round_half_even :: "real \<Rightarrow> int" where
  "round_half_even q =
     (let f = \<lfloor>q\<rfloor>; d = q - of_int f
      in if d < 1 / 2 then f else if 1 / 2 < d then f + 1 else if even f then f else f + 1)"

text \<open>The number of bits of a positive integer.\<close>

function bit_length :: "int \<Rightarrow> int" where
  "bit_length a = (if a \<le> 0 then 0 else 1 + bit_length (a div 2))"
  by pat_completeness auto
termination
  by (relation "measure nat") auto

declare bit_length.simps [simp del]

text \<open>
  The exponent \<open>k\<close> with \<open>2 ^ k \<le> \<bar>q\<bar> < 2 ^ (k + 1)\<close>, for \<open>q \<noteq> 0\<close>: from the bits of
  the integer part when \<open>\<bar>q\<bar> \<ge> 1\<close>, and else from those of the integer part of
  \<open>1 / \<bar>q\<bar>\<close>.
\<close>

definition binary_exponent :: "real \<Rightarrow> int" where
  "binary_exponent q =
     (if 1 \<le> \<bar>q\<bar> then bit_length \<lfloor>\<bar>q\<bar>\<rfloor> - 1
      else
        (let b = bit_length \<lfloor>1 / \<bar>q\<bar>\<rfloor>
         in if pow2 (1 - b) \<le> \<bar>q\<bar> then 1 - b else - b))"

text \<open>Rounding to 53 significant bits.\<close>

definition double_round :: "real \<Rightarrow> real" where
  "double_round q =
     (if q = 0 then 0
      else
        (let e = binary_exponent q - 52
         in sgn q * of_int (round_half_even (\<bar>q\<bar> / pow2 e)) * pow2 e))"

record arithmetic =
  agg_round :: "real \<Rightarrow> real"
  stat_round :: "real \<Rightarrow> real"
  div_overflows :: "real \<Rightarrow> bool"

definition exact :: arithmetic where
  "exact = \<lparr>agg_round = (\<lambda>q. q), stat_round = (\<lambda>q. q), div_overflows = (\<lambda>q. False)\<rparr>"

definition py_float :: arithmetic where
  "py_float =
     \<lparr>agg_round = double_round, stat_round = double_round, div_overflows = (\<lambda>q. False)\<rparr>"

text \<open>
  The largest float is \<open>2 ^ 1024 - 2 ^ 971\<close>; a quotient rounds beyond it from
  \<open>2 ^ 1024 - 2 ^ 970\<close> on.
\<close>

definition py_int :: arithmetic where
  "py_int =
     \<lparr>agg_round = (\<lambda>q. q), stat_round = double_round,
      div_overflows = (\<lambda>q. 2 ^ 1024 - 2 ^ 970 \<le> \<bar>q\<bar>)\<rparr>"

section \<open>Aggregate nodes\<close>

text \<open>
  The exceptions the Python code can raise. \<open>IndexError\<close> is raised by \<open>update\<close> on a bad
  index and by any list access out of range, \<open>ValueError\<close> by the three queries on a bad
  range, \<open>RecursionError\<close> by a recursion that never reaches its base case, and
  \<open>OverflowError\<close> by a true division whose result is too large for a float.
\<close>

datatype error = IndexError | ValueError | RecursionError | OverflowError

text \<open>Class \<open>Node\<close>: the three accumulated fields; \<open>count\<close> is a Python integer.\<close>

record node =
  suma :: real
  suma_cuadrados :: real
  count :: int

definition Node :: "real \<Rightarrow> real \<Rightarrow> int \<Rightarrow> node" where
  "Node s q c = \<lparr>suma = s, suma_cuadrados = q, count = c\<rparr>"

text \<open>
  The true division \<open>x / count\<close> of an accumulated field by the count of a node. The count
  is not zero where the code divides.
\<close>

definition true_divide :: "arithmetic \<Rightarrow> real \<Rightarrow> int \<Rightarrow> error + real" where
  "true_divide ar x c =
     (if div_overflows ar (x / of_int c) then Inl OverflowError
      else Inr (stat_round ar (x / of_int c)))"

definition get_variance :: "arithmetic \<Rightarrow> node \<Rightarrow> error + real" where
  "get_variance ar nd =
     (if count nd = 0 then Inr 0
      else
        (case true_divide ar (suma nd) (count nd) of
           Inl e \<Rightarrow> Inl e
         | Inr media \<Rightarrow>
             (case true_divide ar (suma_cuadrados nd) (count nd) of
                Inl e \<Rightarrow> Inl e
              | Inr media_cuadrados \<Rightarrow>
                  (let varianza = stat_round ar (media_cuadrados - stat_round ar (media * media))
                   in Inr (max 0 varianza)))))"

definition get_mean :: "arithmetic \<Rightarrow> node \<Rightarrow> error + real" where
  "get_mean ar nd = (if count nd = 0 then Inr 0 else true_divide ar (suma nd) (count nd))"

definition merge :: "arithmetic \<Rightarrow> node \<Rightarrow> node \<Rightarrow> node" where
  "merge ar left_node right_node =
     Node (agg_round ar (suma left_node + suma right_node))
          (agg_round ar (suma_cuadrados left_node + suma_cuadrados right_node))
          (count left_node + count right_node)"

section \<open>The segment tree\<close>

text \<open>
  Class \<open>SegmentTreeVariance\<close>: the private copy of the data, its length, and the array of
  node slots in heap layout.
\<close>

record tree_state =
  self_arr :: "real list"
  self_n :: nat
  self_tree :: "node list"

text \<open>
  \<open>_build\<close>. The tree array is passed in and returned, together with the exception raised,
  if any; a raise leaves the array as it was at that moment. Every list access is guarded as
  Python guards it. For \<open>right < left\<close> no base case is ever reached (the left child again
  has its right end below its left end), and Python raises \<open>RecursionError\<close> before any
  slot is touched.
\<close>

function build ::
  "arithmetic \<Rightarrow> real list \<Rightarrow> node list \<Rightarrow> nat \<Rightarrow> nat \<Rightarrow> nat \<Rightarrow> error option \<times> node list" where
  "build ar a t node_idx left right =
     (if left = right then
        (if left < length a \<and> node_idx < length t
         then (None, t[node_idx := Node (a ! left) (agg_round ar (a ! left * a ! left)) 1])
         else (Some IndexError, t))
      else if right < left then (Some RecursionError, t)
      else
        (let mid = (left + right) div 2;
             left_child = 2 * node_idx + 1;
             right_child = 2 * node_idx + 2
         in case build ar a t left_child left mid of
              (Some e, t1) \<Rightarrow> (Some e, t1)
            | (None, t1) \<Rightarrow>
                (case build ar a t1 right_child (mid + 1) right of
                   (Some e, t2) \<Rightarrow> (Some e, t2)
                 | (None, t2) \<Rightarrow>
                     if left_child < length t2 \<and> right_child < length t2 \<and> node_idx < length t2
                     then (None, t2[node_idx := merge ar (t2 ! left_child) (t2 ! right_child)])
                     else (Some IndexError, t2))))"
  by pat_completeness auto
termination
  by (relation "measure (\<lambda>(ar, a, t, node_idx, left, right). right - left)") auto

declare build.simps [simp del]

text \<open>\<open>__init__\<close>: copy the input, allocate \<open>4 * n\<close> empty nodes, build when \<open>n > 0\<close>.\<close>

definition construct :: "arithmetic \<Rightarrow> real list \<Rightarrow> error + tree_state" where
  "construct ar a =
     (let st = \<lparr>self_arr = a, self_n = length a,
                self_tree = replicate (4 * length a) (Node 0 0 0)\<rparr>
      in if self_n st > 0 then
           (case build ar (self_arr st) (self_tree st) 0 0 (self_n st - 1) of
              (Some e, t) \<Rightarrow> Inl e
            | (None, t) \<Rightarrow> Inr (st\<lparr>self_tree := t\<rparr>))
         else Inr st)"

text \<open>\<open>_update_recursive\<close>, with the same conventions as \<open>build\<close>.\<close>

function update_recursive ::
  "arithmetic \<Rightarrow> node list \<Rightarrow> nat \<Rightarrow> nat \<Rightarrow> nat \<Rightarrow> nat \<Rightarrow> real \<Rightarrow> error option \<times> node list" where
  "update_recursive ar t node_idx left right target_idx new_value =
     (if left = right then
        (if node_idx < length t
         then (None, t[node_idx := Node new_value (agg_round ar (new_value * new_value)) 1])
         else (Some IndexError, t))
      else if right < left then (Some RecursionError, t)
      else
        (let mid = (left + right) div 2;
             left_child = 2 * node_idx + 1;
             right_child = 2 * node_idx + 2
         in case (if target_idx \<le> mid
                  then update_recursive ar t left_child left mid target_idx new_value
                  else update_recursive ar t right_child (mid + 1) right target_idx new_value) of
              (Some e, t1) \<Rightarrow> (Some e, t1)
            | (None, t1) \<Rightarrow>
                if left_child < length t1 \<and> right_child < length t1 \<and> node_idx < length t1
                then (None, t1[node_idx := merge ar (t1 ! left_child) (t1 ! right_child)])
                else (Some IndexError, t1)))"
  by pat_completeness auto
termination
  by (relation "measure (\<lambda>(ar, t, node_idx, left, right, target_idx, new_value). right - left)")
     auto

declare update_recursive.simps [simp del]

text \<open>
  \<open>update\<close>: the index is a Python integer and may be negative. The result is the exception
  raised, if any, and the object's state after the call.
\<close>

definition update ::
  "arithmetic \<Rightarrow> tree_state \<Rightarrow> int \<Rightarrow> real \<Rightarrow> error option \<times> tree_state" where
  "update ar st index new_value =
     (if index < 0 \<or> index \<ge> int (self_n st) then (Some IndexError, st)
      else if \<not> nat index < length (self_arr st) then (Some IndexError, st)
      else
        (let st1 = st\<lparr>self_arr := (self_arr st)[nat index := new_value]\<rparr>
         in case update_recursive ar (self_tree st1) 0 0 (self_n st1 - 1) (nat index) new_value of
              (e, t) \<Rightarrow> (e, st1\<lparr>self_tree := t\<rparr>)))"

text \<open>\<open>_query_recursive\<close>: reads the tree only, so it returns the node or the exception.\<close>

function query_recursive ::
  "arithmetic \<Rightarrow> node list \<Rightarrow> nat \<Rightarrow> nat \<Rightarrow> nat \<Rightarrow> nat \<Rightarrow> nat \<Rightarrow> error + node" where
  "query_recursive ar t node_idx left right query_left query_right =
     (if query_right < left \<or> query_left > right then Inr (Node 0 0 0)
      else if query_left \<le> left \<and> right \<le> query_right then
        (if node_idx < length t then Inr (t ! node_idx) else Inl IndexError)
      else
        (let mid = (left + right) div 2;
             left_child = 2 * node_idx + 1;
             right_child = 2 * node_idx + 2
         in case query_recursive ar t left_child left mid query_left query_right of
              Inl e \<Rightarrow> Inl e
            | Inr left_result \<Rightarrow>
                (case query_recursive ar t right_child (mid + 1) right query_left query_right of
                   Inl e \<Rightarrow> Inl e
                 | Inr right_result \<Rightarrow> Inr (merge ar left_result right_result))))"
  by pat_completeness auto
termination
  by (relation
      "measure (\<lambda>(ar, t, node_idx, left, right, query_left, query_right). right - left)")
     auto

declare query_recursive.simps [simp del]

definition query_variance :: "arithmetic \<Rightarrow> tree_state \<Rightarrow> int \<Rightarrow> int \<Rightarrow> error + real" where
  "query_variance ar st query_left query_right =
     (if query_left < 0 \<or> query_right \<ge> int (self_n st) \<or> query_left > query_right
      then Inl ValueError
      else
        (case query_recursive ar (self_tree st) 0 0 (self_n st - 1)
                (nat query_left) (nat query_right) of
           Inl e \<Rightarrow> Inl e
         | Inr result_node \<Rightarrow> get_variance ar result_node))"

definition query_mean :: "arithmetic \<Rightarrow> tree_state \<Rightarrow> int \<Rightarrow> int \<Rightarrow> error + real" where
  "query_mean ar st query_left query_right =
     (if query_left < 0 \<or> query_right \<ge> int (self_n st) \<or> query_left > query_right
      then Inl ValueError
      else
        (case query_recursive ar (self_tree st) 0 0 (self_n st - 1)
                (nat query_left) (nat query_right) of
           Inl e \<Rightarrow> Inl e
         | Inr result_node \<Rightarrow> get_mean ar result_node))"

definition query_sum :: "arithmetic \<Rightarrow> tree_state \<Rightarrow> int \<Rightarrow> int \<Rightarrow> error + real" where
  "query_sum ar st query_left query_right =
     (if query_left < 0 \<or> query_right \<ge> int (self_n st) \<or> query_left > query_right
      then Inl ValueError
      else
        (case query_recursive ar (self_tree st) 0 0 (self_n st - 1)
                (nat query_left) (nat query_right) of
           Inl e \<Rightarrow> Inl e
         | Inr result_node \<Rightarrow> Inr (suma result_node)))"

text \<open>\<open>get_array\<close>, as a value: the contents of the backing list.\<close>

definition get_array :: "tree_state \<Rightarrow> real list" where
  "get_array st = self_arr st"

section \<open>Node positions\<close>

text \<open>
  The positions of the tree in heap layout, as \<open>print_tree\<close> walks them: the node index
  with the range it covers, the root first, then the left and the right subtree.
\<close>

function positions :: "nat \<Rightarrow> nat \<Rightarrow> nat \<Rightarrow> (nat \<times> nat \<times> nat) list" where
  "positions node_idx left right =
     (if left > right then []
      else (node_idx, left, right) #
           (if left < right
            then positions (2 * node_idx + 1) left ((left + right) div 2) @
                 positions (2 * node_idx + 2) ((left + right) div 2 + 1) right
            else []))"
  by pat_completeness auto
termination
  by (relation "measure (\<lambda>(node_idx, left, right). right - left)") auto

declare positions.simps [simp del]

definition tree_positions :: "nat \<Rightarrow> (nat \<times> nat \<times> nat) list" where
  "tree_positions k = (if k = 0 then [] else positions 0 0 (k - 1))"

section \<open>Direct computation of the statistics\<close>

text \<open>
  The statistics of a list of numbers computed from their definitions, in exact arithmetic:
  the population variance is the mean of the squared deviations from the mean.
  \<open>segment a lo hi\<close> is the slice \<open>a[lo:hi+1]\<close>.
\<close>

definition segment :: "real list \<Rightarrow> nat \<Rightarrow> nat \<Rightarrow> real list" where
  "segment a lo hi = take (hi + 1 - lo) (drop lo a)"

definition direct_sum :: "real list \<Rightarrow> real" where
  "direct_sum xs = sum_list xs"

definition direct_mean :: "real list \<Rightarrow> real" where
  "direct_mean xs = sum_list xs / of_nat (length xs)"

definition direct_variance :: "real list \<Rightarrow> real" where
  "direct_variance xs =
     (\<Sum>x\<leftarrow>xs. (x - direct_mean xs) * (x - direct_mean xs)) / of_nat (length xs)"

section \<open>Lists as objects\<close>

text \<open>
  Python lists are objects: two names may denote one list, and a change through one name is
  seen through the other. A store holds the list objects, a reference is a position in it.
  \<open>copy_list\<close> is the slice \<open>xs[:]\<close>, which makes a new list object with the same
  elements; \<open>mutate_list\<close> is any in-place change of one list object by its holder.
\<close>

type_synonym ref = nat

type_synonym store = "real list list"

definition copy_list :: "store \<Rightarrow> ref \<Rightarrow> ref \<times> store" where
  "copy_list s r = (length s, s @ [s ! r])"

definition mutate_list :: "store \<Rightarrow> ref \<Rightarrow> real list \<Rightarrow> store" where
  "mutate_list s r xs = s[r := xs]"

text \<open>
  The tree object with its backing list held by reference, and the state it denotes in a
  store.
\<close>

record tree_object =
  obj_arr :: ref
  obj_n :: nat
  obj_tree :: "node list"

definition load :: "store \<Rightarrow> tree_object \<Rightarrow> tree_state" where
  "load s ob = \<lparr>self_arr = s ! obj_arr ob, self_n = obj_n ob, self_tree = obj_tree ob\<rparr>"

text \<open>\<open>__init__\<close> on a list given by reference: \<open>self.arr = arr[:]\<close>.\<close>

definition init_object ::
  "arithmetic \<Rightarrow> store \<Rightarrow> ref \<Rightarrow> error + tree_object \<times> store" where
  "init_object ar s arr =
     (case copy_list s arr of
        (r, s1) \<Rightarrow>
          (case construct ar (s1 ! r) of
             Inl e \<Rightarrow> Inl e
           | Inr st \<Rightarrow> Inr (\<lparr>obj_arr = r, obj_n = self_n st, obj_tree = self_tree st\<rparr>, s1)))"

text \<open>\<open>update\<close> on the object: the backing list is changed in place.\<close>

definition obj_update ::
  "arithmetic \<Rightarrow> store \<Rightarrow> tree_object \<Rightarrow> int \<Rightarrow> real \<Rightarrow>
     error option \<times> tree_object \<times> store" where
  "obj_update ar s ob index new_value =
     (case update ar (load s ob) index new_value of
        (e, st) \<Rightarrow> (e, ob\<lparr>obj_tree := self_tree st\<rparr>, s[obj_arr ob := self_arr st]))"

text \<open>\<open>get_array\<close> on the object: \<open>return self.arr[:]\<close>.\<close>

definition obj_get_array :: "store \<Rightarrow> tree_object \<Rightarrow> ref \<times> store" where
  "obj_get_array s ob = copy_list s (obj_arr ob)"

section \<open>Reachable states and the invariant\<close>

text \<open>
  The indices below a node in heap layout; the left and the right subtree of a node share no
  index.
\<close>

inductive_set subtree :: "nat \<Rightarrow> nat set" for i :: nat where
  sub_root: "i \<in> subtree i"
| sub_left: "j \<in> subtree i \<Longrightarrow> 2 * j + 1 \<in> subtree i"
| sub_right: "j \<in> subtree i \<Longrightarrow> 2 * j + 2 \<in> subtree i"

text \<open>
  The aggregate that the tree holds for the range \<open>[lo, hi]\<close> of a position: a leaf for one
  element, and else the merge of the aggregates of the two halves, rounded as the code
  rounds. In exact arithmetic it is \<open>agg\<close>, the sum, the sum of squares and the length of
  the slice \<open>a[lo:hi+1]\<close>.
\<close>

function tree_agg :: "arithmetic \<Rightarrow> real list \<Rightarrow> nat \<Rightarrow> nat \<Rightarrow> node" where
  "tree_agg ar a lo hi =
     (if lo < hi
      then merge ar (tree_agg ar a lo ((lo + hi) div 2))
                     (tree_agg ar a ((lo + hi) div 2 + 1) hi)
      else Node (a ! lo) (agg_round ar (a ! lo * a ! lo)) 1)"
  by pat_completeness auto
termination
  by (relation "measure (\<lambda>(ar, a, lo, hi). hi - lo)") auto

declare tree_agg.simps [simp del]

definition agg :: "real list \<Rightarrow> nat \<Rightarrow> nat \<Rightarrow> node" where
  "agg a lo hi =
     Node (sum_list (segment a lo hi)) (\<Sum>x\<leftarrow>segment a lo hi. x * x) (int (hi + 1 - lo))"

text \<open>
  The invariant: the length field is the length of the backing list, the tree has \<open>4 * n\<close>
  slots, and the slot of every position holds the aggregate of the range it covers. The
  reachable states are those that the constructor returns and those that a successful update
  makes from a reachable state.
\<close>

definition tree_inv :: "arithmetic \<Rightarrow> tree_state \<Rightarrow> bool" where
  "tree_inv ar st \<longleftrightarrow>
     self_n st = length (self_arr st) \<and>
     length (self_tree st) = 4 * self_n st \<and>
     (\<forall>(j, lo, hi) \<in> set (tree_positions (self_n st)).
        self_tree st ! j = tree_agg ar (self_arr st) lo hi)"

inductive reachable :: "arithmetic \<Rightarrow> tree_state \<Rightarrow> bool" for ar :: arithmetic where
  reach_construct: "construct ar a = Inr st \<Longrightarrow> reachable ar st"
| reach_update:
    "reachable ar st \<Longrightarrow> update ar st index new_value = (None, st') \<Longrightarrow> reachable ar st'"

section \<open>Arithmetics and the exceptions of the statistics\<close>

lemma exact_simps [simp]:
  "agg_round exact q = q" "stat_round exact q = q" "div_overflows exact q = False"
  by (simp_all add: exact_def)

lemma get_variance_error: "get_variance ar nd = Inl e \<Longrightarrow> e = OverflowError"
  by (auto simp: get_variance_def true_divide_def Let_def split: if_splits sum.splits)

lemma get_mean_error: "get_mean ar nd = Inl e \<Longrightarrow> e = OverflowError"
  by (auto simp: get_mean_def true_divide_def split: if_splits)

section \<open>Heap layout\<close>

lemma subtree_ge: "j \<in> subtree i \<Longrightarrow> i \<le> j"
  by (induction rule: subtree.induct) auto

lemma subtree_trans: "j \<in> subtree k \<Longrightarrow> k \<in> subtree i \<Longrightarrow> j \<in> subtree i"
  by (induction rule: subtree.induct) (blast intro: subtree.intros)+

lemma subtree_left_child: "j \<in> subtree (2 * i + 1) \<Longrightarrow> j \<in> subtree i"
  by (rule subtree_trans[where k = "2 * i + 1"]) (blast intro: subtree.intros)+

lemma subtree_right_child: "j \<in> subtree (2 * i + 2) \<Longrightarrow> j \<in> subtree i"
  by (rule subtree_trans[where k = "2 * i + 2"]) (blast intro: subtree.intros)+

lemma subtree_disjoint: "j \<in> subtree (2 * i + 1) \<Longrightarrow> j \<notin> subtree (2 * i + 2)"
proof (induction rule: subtree.induct)
  case sub_root
  show ?case using subtree_ge[of "2 * i + 1" "2 * i + 2"] by auto
next
  case (sub_left j)
  show ?case
  proof
    assume "2 * j + 1 \<in> subtree (2 * i + 2)"
    then show False using sub_left.IH
      by (cases rule: subtree.cases) (auto, presburger+)
  qed
next
  case (sub_right j)
  show ?case
  proof
    assume "2 * j + 2 \<in> subtree (2 * i + 2)"
    then show False using sub_right.IH sub_right.hyps subtree_ge[of j "2 * i + 1"]
      by (cases rule: subtree.cases) (auto, presburger+)
  qed
qed

lemma positions_leaf: "positions i l l = [(i, l, l)]"
  by (simp add: positions.simps)

lemma positions_empty: "r < l \<Longrightarrow> positions i l r = []"
  by (simp add: positions.simps)

lemma positions_inner:
  "l < r \<Longrightarrow> positions i l r =
     (i, l, r) # positions (2 * i + 1) l ((l + r) div 2) @ positions (2 * i + 2) ((l + r) div 2 + 1) r"
  by (subst positions.simps) simp

lemma positions_range:
  "(j, lo, hi) \<in> set (positions i l r) \<Longrightarrow> l \<le> lo \<and> lo \<le> hi \<and> hi \<le> r"
proof (induction i l r rule: positions.induct)
  case (1 i l r)
  show ?case
  proof (cases "l < r")
    case True
    with 1 show ?thesis by (auto simp: positions_inner)
  next
    case False
    with 1 show ?thesis by (cases "l = r") (auto simp: positions_leaf positions_empty)
  qed
qed

lemma positions_subtree:
  "(j, lo, hi) \<in> set (positions i l r) \<Longrightarrow> j \<in> subtree i"
proof (induction i l r rule: positions.induct)
  case (1 i l r)
  show ?case
  proof (cases "l < r")
    case True
    with 1 show ?thesis
      by (auto simp: positions_inner intro: subtree.intros subtree_left_child subtree_right_child)
  next
    case False
    with 1 show ?thesis
      by (cases "l = r") (auto simp: positions_leaf positions_empty intro: subtree.intros)
  qed
qed

section \<open>The bound on node indices\<close>

lemma pow2_cover: "0 < k \<Longrightarrow> \<exists>h. k \<le> 2 ^ h \<and> (2::nat) ^ h < 2 * k"
proof (induction k)
  case 0
  then show ?case by simp
next
  case (Suc k)
  show ?case
  proof (cases "k = 0")
    case True
    then show ?thesis by (intro exI[of _ 0]) simp
  next
    case False
    with Suc obtain h where h: "k \<le> 2 ^ h" "(2::nat) ^ h < 2 * k" by auto
    show ?thesis
    proof (cases "Suc k \<le> 2 ^ h")
      case True
      with h show ?thesis by (intro exI[of _ h]) simp
    next
      case False
      with h have "(2::nat) ^ h = k" by simp
      with \<open>k \<noteq> 0\<close> show ?thesis by (intro exI[of _ "Suc h"]) simp
    qed
  qed
qed

lemma positions_index_pow2:
  "(j, lo, hi) \<in> set (positions i l r) \<Longrightarrow> r + 1 - l \<le> 2 ^ h \<Longrightarrow> j + 2 \<le> (i + 2) * 2 ^ h"
proof (induction i l r arbitrary: h rule: positions.induct)
  case (1 i l r)
  show ?case
  proof (cases "l < r")
    case False
    with 1(3) have "j = i" by (cases "l = r") (auto simp: positions_leaf positions_empty)
    moreover have "(1::nat) \<le> 2 ^ h" by simp
    then have "(i + 2) * 1 \<le> (i + 2) * 2 ^ h" by (rule mult_le_mono2)
    ultimately show ?thesis by simp
  next
    case True
    with 1(4) have "h \<noteq> 0" by (cases h) auto
    then obtain h' where h': "h = Suc h'" by (cases h) auto
    let ?m = "(l + r) div 2"
    from True 1(4) h' have lenl: "?m + 1 - l \<le> 2 ^ h'" and lenr: "r + 1 - (?m + 1) \<le> 2 ^ h'"
      by auto
    from 1(3) True consider "j = i" | "(j, lo, hi) \<in> set (positions (2 * i + 1) l ?m)"
      | "(j, lo, hi) \<in> set (positions (2 * i + 2) (?m + 1) r)"
      by (auto simp: positions_inner)
    then show ?thesis
    proof cases
      case 1
      have "(1::nat) \<le> 2 ^ h" by simp
      then have "(i + 2) * 1 \<le> (i + 2) * 2 ^ h" by (rule mult_le_mono2)
      with 1 show ?thesis by simp
    next
      case 2
      have "j + 2 \<le> (2 * i + 1 + 2) * 2 ^ h'"
        using "1.IH"(1)[OF _ True 2 lenl] True by simp
      also have "\<dots> \<le> (2 * i + 4) * 2 ^ h'" by (rule mult_le_mono1) simp
      also have "\<dots> = (i + 2) * 2 ^ h" by (simp add: h' algebra_simps)
      finally show ?thesis .
    next
      case 3
      have "j + 2 \<le> (2 * i + 2 + 2) * 2 ^ h'"
        using "1.IH"(2)[OF _ True 3 lenr] True by simp
      also have "\<dots> = (i + 2) * 2 ^ h" by (simp add: h' algebra_simps)
      finally show ?thesis .
    qed
  qed
qed

lemma tree_positions_bound:
  assumes "(j, lo, hi) \<in> set (tree_positions k)"
  shows "j < 4 * k"
proof -
  from assms have k: "0 < k" and mem: "(j, lo, hi) \<in> set (positions 0 0 (k - 1))"
    by (auto simp: tree_positions_def split: if_splits)
  from pow2_cover[OF k] obtain h where h: "k \<le> 2 ^ h" "(2::nat) ^ h < 2 * k" by auto
  from k h(1) have "k - 1 + 1 - 0 \<le> 2 ^ h" by simp
  from positions_index_pow2[OF mem this] have "j + 2 \<le> 2 * 2 ^ h" by simp
  with h(2) show ?thesis by simp
qed

section \<open>Slices and their aggregates\<close>

lemma segment_split:
  "l \<le> m \<Longrightarrow> m < r \<Longrightarrow> segment a l r = segment a l m @ segment a (m + 1) r"
proof -
  assume lm: "l \<le> m" and mr: "m < r"
  have "take (r + 1 - l) (drop l a) = take ((m + 1 - l) + (r - m)) (drop l a)"
    using lm mr by simp
  also have "\<dots> = take (m + 1 - l) (drop l a) @ take (r - m) (drop (m + 1 - l) (drop l a))"
    by (rule take_add)
  also have "drop (m + 1 - l) (drop l a) = drop (m + 1) a" using lm by simp
  finally show ?thesis using lm mr by (simp add: segment_def)
qed

lemma segment_single: "l < length a \<Longrightarrow> segment a l l = [a ! l]"
  by (simp add: segment_def take_Suc_conv_app_nth[of 0] hd_drop_conv_nth take_Suc)

lemma length_segment: "lo \<le> hi \<Longrightarrow> hi < length a \<Longrightarrow> length (segment a lo hi) = hi + 1 - lo"
  by (simp add: segment_def)

lemma segment_update_outside:
  "target < lo \<or> hi < target \<Longrightarrow> segment (a[target := v]) lo hi = segment a lo hi"
proof (cases "target < lo")
  case True
  then show ?thesis by (simp add: segment_def)
next
  case False
  assume "target < lo \<or> hi < target"
  with False have "hi < target" "lo \<le> target" by auto
  then show ?thesis by (simp add: segment_def drop_update_swap)
qed

lemma agg_merge:
  "l \<le> m \<Longrightarrow> m < r \<Longrightarrow> merge exact (agg a l m) (agg a (m + 1) r) = agg a l r"
  by (simp add: merge_def agg_def Node_def segment_split[of l m r])

lemma agg_leaf: "l < length a \<Longrightarrow> agg a l l = Node (a ! l) (a ! l * a ! l) 1"
  by (simp add: agg_def segment_single)

lemma merge_empty_left: "merge exact (Node 0 0 0) x = x"
  by (simp add: merge_def Node_def)

lemma merge_empty_right: "merge exact x (Node 0 0 0) = x"
  by (simp add: merge_def Node_def)

lemma tree_agg_leaf: "tree_agg ar a l l = Node (a ! l) (agg_round ar (a ! l * a ! l)) 1"
  by (subst tree_agg.simps) simp

lemma tree_agg_inner:
  "l < r \<Longrightarrow> tree_agg ar a l r =
     merge ar (tree_agg ar a l ((l + r) div 2)) (tree_agg ar a ((l + r) div 2 + 1) r)"
  by (subst tree_agg.simps) simp

lemma tree_agg_update_outside:
  "lo \<le> hi \<Longrightarrow> target < lo \<or> hi < target \<Longrightarrow>
   tree_agg ar (a[target := v]) lo hi = tree_agg ar a lo hi"
proof (induction "hi - lo" arbitrary: lo hi rule: less_induct)
  case less
  show ?case
  proof (cases "lo < hi")
    case False
    with less.prems have "lo = hi" "target \<noteq> lo" by auto
    then show ?thesis by (simp add: tree_agg_leaf)
  next
    case True
    define m where "m = (lo + hi) div 2"
    have m: "lo \<le> m" "m < hi" using True by (auto simp: m_def)
    have L: "tree_agg ar (a[target := v]) lo m = tree_agg ar a lo m"
      by (rule less.hyps) (use m less.prems in auto)
    have R: "tree_agg ar (a[target := v]) (m + 1) hi = tree_agg ar a (m + 1) hi"
      by (rule less.hyps) (use m less.prems in auto)
    show ?thesis
      by (simp only: tree_agg_inner[OF True] m_def[symmetric] L R)
  qed
qed

lemma tree_agg_exact:
  "lo \<le> hi \<Longrightarrow> hi < length a \<Longrightarrow> tree_agg exact a lo hi = agg a lo hi"
proof (induction "hi - lo" arbitrary: lo hi rule: less_induct)
  case less
  show ?case
  proof (cases "lo < hi")
    case False
    with less.prems have "lo = hi" "lo < length a" by auto
    then show ?thesis by (simp add: tree_agg_leaf agg_leaf)
  next
    case True
    define m where "m = (lo + hi) div 2"
    have m: "lo \<le> m" "m < hi" using True by (auto simp: m_def)
    have L: "tree_agg exact a lo m = agg a lo m"
      by (rule less.hyps) (use m less.prems in auto)
    have R: "tree_agg exact a (m + 1) hi = agg a (m + 1) hi"
      by (rule less.hyps) (use m less.prems in auto)
    show ?thesis
      by (simp only: tree_agg_inner[OF True] m_def[symmetric] L R agg_merge[OF m])
  qed
qed

lemma count_tree_agg: "lo \<le> hi \<Longrightarrow> count (tree_agg ar a lo hi) = int hi - int lo + 1"
proof (induction "hi - lo" arbitrary: lo hi rule: less_induct)
  case less
  show ?case
  proof (cases "lo < hi")
    case False
    with less.prems have "lo = hi" by auto
    then show ?thesis by (simp add: tree_agg_leaf Node_def)
  next
    case True
    define m where "m = (lo + hi) div 2"
    have m: "lo \<le> m" "m < hi" using True by (auto simp: m_def)
    have L: "count (tree_agg ar a lo m) = int m - int lo + 1"
      by (rule less.hyps) (use m in auto)
    have R: "count (tree_agg ar a (m + 1) hi) = int hi - int (m + 1) + 1"
      by (rule less.hyps) (use m in auto)
    show ?thesis
      using L R by (simp add: tree_agg_inner[OF True] m_def[symmetric] merge_def Node_def)
  qed
qed

section \<open>Build, update and query on one subtree\<close>

lemma positions_head: "l \<le> r \<Longrightarrow> (i, l, r) \<in> set (positions i l r)"
  by (subst positions.simps) simp

lemma positions_children_disjoint:
  "(j, lo, hi) \<in> set (positions (2 * i + 1) l m) \<Longrightarrow>
   (j, lo', hi') \<in> set (positions (2 * i + 2) l' r) \<Longrightarrow> False"
  using positions_subtree subtree_disjoint by blast

lemma positions_child_not_parent:
  "(j, lo, hi) \<in> set (positions (2 * i + 1) l m) \<or> (j, lo, hi) \<in> set (positions (2 * i + 2) l' r)
   \<Longrightarrow> j \<noteq> i"
  using positions_subtree[of j lo hi "2 * i + 1" l m] positions_subtree[of j lo hi "2 * i + 2" l' r]
    subtree_ge[of j "2 * i + 1"] subtree_ge[of j "2 * i + 2"] by auto

lemma build_correct:
  assumes "l \<le> r" and "r < length a"
    and "\<forall>(j, lo, hi) \<in> set (positions i l r). j < length t"
  shows "\<exists>t'. build ar a t i l r = (None, t') \<and> length t' = length t \<and>
           (\<forall>(j, lo, hi) \<in> set (positions i l r). t' ! j = tree_agg ar a lo hi) \<and>
           (\<forall>j. j \<notin> fst ` set (positions i l r) \<longrightarrow> t' ! j = t ! j)"
  using assms
proof (induction "r - l" arbitrary: t i l r rule: less_induct)
  case less
  show ?case
  proof (cases "l = r")
    case True
    with less.prems have "i < length t" "l < length a"
      by (auto simp: positions_leaf)
    with True show ?thesis
      by (subst build.simps) (auto simp: positions_leaf tree_agg_leaf)
  next
    case False
    with less.prems have lr: "l < r" by simp
    define m where "m = (l + r) div 2"
    have m: "l \<le> m" "m < r" using lr by (auto simp: m_def)
    have pos: "positions i l r =
        (i, l, r) # positions (2 * i + 1) l m @ positions (2 * i + 2) (m + 1) r"
      unfolding m_def by (rule positions_inner[OF lr])
    have slots1: "\<forall>(j, lo, hi) \<in> set (positions (2 * i + 1) l m). j < length t"
      using less.prems(3) by (auto simp: pos)
    have "\<exists>t1. build ar a t (2 * i + 1) l m = (None, t1) \<and> length t1 = length t \<and>
           (\<forall>(j, lo, hi) \<in> set (positions (2 * i + 1) l m). t1 ! j = tree_agg ar a lo hi) \<and>
           (\<forall>j. j \<notin> fst ` set (positions (2 * i + 1) l m) \<longrightarrow> t1 ! j = t ! j)"
      by (rule less.hyps) (use m less.prems(2) slots1 in auto)
    then obtain t1 where t1: "build ar a t (2 * i + 1) l m = (None, t1)" "length t1 = length t"
      "\<forall>(j, lo, hi) \<in> set (positions (2 * i + 1) l m). t1 ! j = tree_agg ar a lo hi"
      "\<forall>j. j \<notin> fst ` set (positions (2 * i + 1) l m) \<longrightarrow> t1 ! j = t ! j"
      by auto
    have slots2: "\<forall>(j, lo, hi) \<in> set (positions (2 * i + 2) (m + 1) r). j < length t1"
      using less.prems(3) t1(2) by (auto simp: pos)
    have "\<exists>t2. build ar a t1 (2 * i + 2) (m + 1) r = (None, t2) \<and> length t2 = length t1 \<and>
           (\<forall>(j, lo, hi) \<in> set (positions (2 * i + 2) (m + 1) r). t2 ! j = tree_agg ar a lo hi) \<and>
           (\<forall>j. j \<notin> fst ` set (positions (2 * i + 2) (m + 1) r) \<longrightarrow> t2 ! j = t1 ! j)"
      by (rule less.hyps) (use m less.prems(2) slots2 in auto)
    then obtain t2 where t2: "build ar a t1 (2 * i + 2) (m + 1) r = (None, t2)" "length t2 = length t1"
      "\<forall>(j, lo, hi) \<in> set (positions (2 * i + 2) (m + 1) r). t2 ! j = tree_agg ar a lo hi"
      "\<forall>j. j \<notin> fst ` set (positions (2 * i + 2) (m + 1) r) \<longrightarrow> t2 ! j = t1 ! j"
      by auto
    have hl: "(2 * i + 1, l, m) \<in> set (positions (2 * i + 1) l m)"
      and hr: "(2 * i + 2, m + 1, r) \<in> set (positions (2 * i + 2) (m + 1) r)"
      using m by (auto intro: positions_head)
    have len: "2 * i + 1 < length t2" "2 * i + 2 < length t2" "i < length t2"
      using slots1 slots2 hl hr less.prems(3) t1(2) t2(2) by (auto simp: pos)
    have left_kept: "t2 ! j = tree_agg ar a lo hi" if "(j, lo, hi) \<in> set (positions (2 * i + 1) l m)"
      for j lo hi
    proof -
      have "j \<notin> fst ` set (positions (2 * i + 2) (m + 1) r)"
        using that positions_children_disjoint by fastforce
      with t2(4) have "t2 ! j = t1 ! j" by simp
      with t1(3) that show ?thesis by auto
    qed
    have lc: "t2 ! (2 * i + 1) = tree_agg ar a l m" using left_kept[OF hl] .
    have rc: "t2 ! (2 * i + 2) = tree_agg ar a (m + 1) r" using t2(3) hr by auto
    define t' where "t' = t2[i := merge ar (t2 ! (2 * i + 1)) (t2 ! (2 * i + 2))]"
    have res: "build ar a t i l r = (None, t')"
      using lr t1(1) t2(1) len
      by (subst build.simps) (simp add: m_def[symmetric] t'_def Let_def)
    have root: "t' ! i = tree_agg ar a l r"
      using len(3) lc rc by (simp add: t'_def tree_agg_inner[OF lr] m_def[symmetric])
    have below: "t' ! j = t2 ! j" if "j \<noteq> i" for j
      using that by (simp add: t'_def)
    have holds: "\<forall>(j, lo, hi) \<in> set (positions i l r). t' ! j = tree_agg ar a lo hi"
    proof (clarify)
      fix j lo hi assume mem: "(j, lo, hi) \<in> set (positions i l r)"
      then consider "(j, lo, hi) = (i, l, r)"
        | "(j, lo, hi) \<in> set (positions (2 * i + 1) l m)"
        | "(j, lo, hi) \<in> set (positions (2 * i + 2) (m + 1) r)"
        by (auto simp: pos)
      then show "t' ! j = tree_agg ar a lo hi"
      proof cases
        case 1
        with root show ?thesis by simp
      next
        case 2
        with positions_child_not_parent[of j lo hi i l m] have "j \<noteq> i" by blast
        with below left_kept[OF 2] show ?thesis by simp
      next
        case 3
        with positions_child_not_parent[of j lo hi i _ _ "m + 1" r] have "j \<noteq> i" by blast
        with below t2(3) 3 show ?thesis by auto
      qed
    qed
    have frame: "\<forall>j. j \<notin> fst ` set (positions i l r) \<longrightarrow> t' ! j = t ! j"
    proof (intro allI impI)
      fix j assume out: "j \<notin> fst ` set (positions i l r)"
      then have "j \<noteq> i" "j \<notin> fst ` set (positions (2 * i + 1) l m)"
        "j \<notin> fst ` set (positions (2 * i + 2) (m + 1) r)"
        by (auto simp: pos)
      with below t2(4) t1(4) show "t' ! j = t ! j" by simp
    qed
    from res holds frame t1(2) t2(2) show ?thesis by (auto simp: t'_def)
  qed
qed

lemma update_recursive_correct:
  assumes "l \<le> r" and "r < length a" and "l \<le> target" and "target \<le> r"
    and "\<forall>(j, lo, hi) \<in> set (positions i l r). j < length t"
    and "\<forall>(j, lo, hi) \<in> set (positions i l r). t ! j = tree_agg ar a lo hi"
  shows "\<exists>t'. update_recursive ar t i l r target v = (None, t') \<and> length t' = length t \<and>
           (\<forall>(j, lo, hi) \<in> set (positions i l r). t' ! j = tree_agg ar (a[target := v]) lo hi) \<and>
           (\<forall>j. j \<notin> fst ` set (positions i l r) \<longrightarrow> t' ! j = t ! j)"
  using assms
proof (induction "r - l" arbitrary: t i l r rule: less_induct)
  case less
  show ?case
  proof (cases "l = r")
    case True
    with less.prems have "i < length t" "l < length a" "target = l"
      by (auto simp: positions_leaf)
    with True show ?thesis
      by (subst update_recursive.simps) (auto simp: positions_leaf tree_agg_leaf)
  next
    case False
    with less.prems have lr: "l < r" by simp
    define m where "m = (l + r) div 2"
    define a' where "a' = a[target := v]"
    have m: "l \<le> m" "m < r" using lr by (auto simp: m_def)
    have pos: "positions i l r =
        (i, l, r) # positions (2 * i + 1) l m @ positions (2 * i + 2) (m + 1) r"
      unfolding m_def by (rule positions_inner[OF lr])
    have slots1: "\<forall>(j, lo, hi) \<in> set (positions (2 * i + 1) l m). j < length t"
      and slots2: "\<forall>(j, lo, hi) \<in> set (positions (2 * i + 2) (m + 1) r). j < length t"
      and holds1: "\<forall>(j, lo, hi) \<in> set (positions (2 * i + 1) l m). t ! j = tree_agg ar a lo hi"
      and holds2: "\<forall>(j, lo, hi) \<in> set (positions (2 * i + 2) (m + 1) r). t ! j = tree_agg ar a lo hi"
      using less.prems(5,6) by (auto simp: pos)
    have hl: "(2 * i + 1, l, m) \<in> set (positions (2 * i + 1) l m)"
      and hr: "(2 * i + 2, m + 1, r) \<in> set (positions (2 * i + 2) (m + 1) r)"
      using m by (auto intro: positions_head)
    have "\<exists>t1. (if target \<le> m then update_recursive ar t (2 * i + 1) l m target v
                 else update_recursive ar t (2 * i + 2) (m + 1) r target v) = (None, t1) \<and>
            length t1 = length t \<and>
            (\<forall>(j, lo, hi) \<in> set (positions (2 * i + 1) l m). t1 ! j = tree_agg ar a' lo hi) \<and>
            (\<forall>(j, lo, hi) \<in> set (positions (2 * i + 2) (m + 1) r). t1 ! j = tree_agg ar a' lo hi) \<and>
            (\<forall>j. j \<notin> fst ` set (positions i l r) \<longrightarrow> t1 ! j = t ! j) \<and> t1 ! i = t ! i"
    proof (cases "target \<le> m")
      case True
      have "\<exists>t1. update_recursive ar t (2 * i + 1) l m target v = (None, t1) \<and> length t1 = length t \<and>
           (\<forall>(j, lo, hi) \<in> set (positions (2 * i + 1) l m). t1 ! j = tree_agg ar (a[target := v]) lo hi) \<and>
           (\<forall>j. j \<notin> fst ` set (positions (2 * i + 1) l m) \<longrightarrow> t1 ! j = t ! j)"
        by (rule less.hyps) (use m True less.prems(2,3) slots1 holds1 in auto)
      then obtain t1 where t1: "update_recursive ar t (2 * i + 1) l m target v = (None, t1)"
        "length t1 = length t"
        "\<forall>(j, lo, hi) \<in> set (positions (2 * i + 1) l m). t1 ! j = tree_agg ar a' lo hi"
        "\<forall>j. j \<notin> fst ` set (positions (2 * i + 1) l m) \<longrightarrow> t1 ! j = t ! j"
        unfolding a'_def by auto
      have other: "t1 ! j = tree_agg ar a' lo hi" if mem: "(j, lo, hi) \<in> set (positions (2 * i + 2) (m + 1) r)"
        for j lo hi
      proof -
        have "j \<notin> fst ` set (positions (2 * i + 1) l m)"
          using mem positions_children_disjoint by fastforce
        with t1(4) have "t1 ! j = t ! j" by simp
        also have "\<dots> = tree_agg ar a lo hi" using holds2 mem by auto
        also have "\<dots> = tree_agg ar a' lo hi"
          using positions_range[OF mem] True unfolding a'_def
          by (intro tree_agg_update_outside[symmetric]) auto
        finally show ?thesis .
      qed
      have "i \<notin> fst ` set (positions (2 * i + 1) l m)"
        using positions_child_not_parent[of i _ _ i l m] by fastforce
      with t1 other True show ?thesis by (auto simp: pos)
    next
      case False
      have "\<exists>t1. update_recursive ar t (2 * i + 2) (m + 1) r target v = (None, t1) \<and> length t1 = length t \<and>
           (\<forall>(j, lo, hi) \<in> set (positions (2 * i + 2) (m + 1) r). t1 ! j = tree_agg ar (a[target := v]) lo hi) \<and>
           (\<forall>j. j \<notin> fst ` set (positions (2 * i + 2) (m + 1) r) \<longrightarrow> t1 ! j = t ! j)"
        by (rule less.hyps) (use m False less.prems(2,4) slots2 holds2 in auto)
      then obtain t1 where t1: "update_recursive ar t (2 * i + 2) (m + 1) r target v = (None, t1)"
        "length t1 = length t"
        "\<forall>(j, lo, hi) \<in> set (positions (2 * i + 2) (m + 1) r). t1 ! j = tree_agg ar a' lo hi"
        "\<forall>j. j \<notin> fst ` set (positions (2 * i + 2) (m + 1) r) \<longrightarrow> t1 ! j = t ! j"
        unfolding a'_def by auto
      have other: "t1 ! j = tree_agg ar a' lo hi" if mem: "(j, lo, hi) \<in> set (positions (2 * i + 1) l m)"
        for j lo hi
      proof -
        have "j \<notin> fst ` set (positions (2 * i + 2) (m + 1) r)"
          using mem positions_children_disjoint by fastforce
        with t1(4) have "t1 ! j = t ! j" by simp
        also have "\<dots> = tree_agg ar a lo hi" using holds1 mem by auto
        also have "\<dots> = tree_agg ar a' lo hi"
          using positions_range[OF mem] False unfolding a'_def
          by (intro tree_agg_update_outside[symmetric]) auto
        finally show ?thesis .
      qed
      have "i \<notin> fst ` set (positions (2 * i + 2) (m + 1) r)"
        using positions_child_not_parent[of i _ _ i _ _ "m + 1" r] by fastforce
      with t1 other False show ?thesis by (auto simp: pos)
    qed
    then obtain t1 where t1:
      "(if target \<le> m then update_recursive ar t (2 * i + 1) l m target v
        else update_recursive ar t (2 * i + 2) (m + 1) r target v) = (None, t1)"
      "length t1 = length t"
      "\<forall>(j, lo, hi) \<in> set (positions (2 * i + 1) l m). t1 ! j = tree_agg ar a' lo hi"
      "\<forall>(j, lo, hi) \<in> set (positions (2 * i + 2) (m + 1) r). t1 ! j = tree_agg ar a' lo hi"
      "\<forall>j. j \<notin> fst ` set (positions i l r) \<longrightarrow> t1 ! j = t ! j"
      by auto
    have len: "2 * i + 1 < length t1" "2 * i + 2 < length t1" "i < length t1"
      using slots1 slots2 hl hr less.prems(5) t1(2) by (auto simp: pos)
    have lc: "t1 ! (2 * i + 1) = tree_agg ar a' l m" using t1(3) hl by auto
    have rc: "t1 ! (2 * i + 2) = tree_agg ar a' (m + 1) r" using t1(4) hr by auto
    define t' where "t' = t1[i := merge ar (t1 ! (2 * i + 1)) (t1 ! (2 * i + 2))]"
    have u1: "target \<le> m \<Longrightarrow> update_recursive ar t (2 * i + 1) l m target v = (None, t1)"
      and u2: "\<not> target \<le> m \<Longrightarrow> update_recursive ar t (2 * i + 2) (m + 1) r target v = (None, t1)"
      using t1(1) by auto
    have res: "update_recursive ar t i l r target v = (None, t')"
      using lr u1 u2 len
      by (subst update_recursive.simps) (simp add: m_def[symmetric] t'_def Let_def)
    have root: "t' ! i = tree_agg ar a' l r"
      using len(3) lc rc by (simp add: t'_def tree_agg_inner[OF lr] m_def[symmetric])
    have below: "t' ! j = t1 ! j" if "j \<noteq> i" for j
      using that by (simp add: t'_def)
    have holds: "\<forall>(j, lo, hi) \<in> set (positions i l r). t' ! j = tree_agg ar a' lo hi"
    proof (clarify)
      fix j lo hi assume mem: "(j, lo, hi) \<in> set (positions i l r)"
      then consider "(j, lo, hi) = (i, l, r)"
        | "(j, lo, hi) \<in> set (positions (2 * i + 1) l m)"
        | "(j, lo, hi) \<in> set (positions (2 * i + 2) (m + 1) r)"
        by (auto simp: pos)
      then show "t' ! j = tree_agg ar a' lo hi"
      proof cases
        case 1
        with root show ?thesis by simp
      next
        case 2
        with positions_child_not_parent[of j lo hi i l m] have "j \<noteq> i" by blast
        with below t1(3) 2 show ?thesis by auto
      next
        case 3
        with positions_child_not_parent[of j lo hi i _ _ "m + 1" r] have "j \<noteq> i" by blast
        with below t1(4) 3 show ?thesis by auto
      qed
    qed
    have frame: "\<forall>j. j \<notin> fst ` set (positions i l r) \<longrightarrow> t' ! j = t ! j"
    proof (intro allI impI)
      fix j assume out: "j \<notin> fst ` set (positions i l r)"
      then have "j \<noteq> i" by (auto simp: pos)
      with below t1(5) out show "t' ! j = t ! j" by simp
    qed
    from res holds frame t1(2) show ?thesis by (auto simp: t'_def a'_def)
  qed
qed

lemma query_recursive_correct:
  assumes "l \<le> r" and "ql \<le> qr"
    and "\<forall>(j, lo, hi) \<in> set (positions i l r). j < length t"
    and "\<forall>(j, lo, hi) \<in> set (positions i l r). t ! j = agg a lo hi"
  shows "query_recursive exact t i l r ql qr =
           Inr (if qr < l \<or> r < ql then Node 0 0 0 else agg a (max l ql) (min r qr))"
  using assms
proof (induction "r - l" arbitrary: i l r rule: less_induct)
  case less
  have root: "i < length t" "t ! i = agg a l r"
    using less.prems positions_head[of l r i] by auto
  consider "qr < l \<or> r < ql" | "\<not> (qr < l \<or> r < ql)" "ql \<le> l \<and> r \<le> qr"
    | "\<not> (qr < l \<or> r < ql)" "\<not> (ql \<le> l \<and> r \<le> qr)" by blast
  then show ?case
  proof cases
    case 1
    then show ?thesis by (subst query_recursive.simps) auto
  next
    case 2
    then have "max l ql = l" "min r qr = r" by auto
    with 2 root show ?thesis by (subst query_recursive.simps) auto
  next
    case 3
    with less.prems have lr: "l < r" by auto
    define m where "m = (l + r) div 2"
    have m: "l \<le> m" "m < r" using lr by (auto simp: m_def)
    have pos: "positions i l r =
        (i, l, r) # positions (2 * i + 1) l m @ positions (2 * i + 2) (m + 1) r"
      unfolding m_def by (rule positions_inner[OF lr])
    have L: "query_recursive exact t (2 * i + 1) l m ql qr =
           Inr (if qr < l \<or> m < ql then Node 0 0 0 else agg a (max l ql) (min m qr))"
      by (rule less.hyps) (use m less.prems in \<open>auto simp: pos\<close>)
    have R: "query_recursive exact t (2 * i + 2) (m + 1) r ql qr =
           Inr (if qr < m + 1 \<or> r < ql then Node 0 0 0 else agg a (max (m + 1) ql) (min r qr))"
      by (rule less.hyps) (use m less.prems in \<open>auto simp: pos\<close>)
    have res: "query_recursive exact t i l r ql qr =
       Inr (merge exact (if qr < l \<or> m < ql then Node 0 0 0 else agg a (max l ql) (min m qr))
                  (if qr < m + 1 \<or> r < ql then Node 0 0 0 else agg a (max (m + 1) ql) (min r qr)))"
    proof -
      from 3 have c1: "\<not> (qr < l \<or> l + (r - l) < ql)" and c1': "\<not> (qr < l \<or> r < ql)"
        and c2: "\<not> (ql \<le> l \<and> r \<le> qr)" by auto
      show ?thesis
        by (subst query_recursive.simps)
          (simp only: c1' c2 if_False Let_def m_def[symmetric] L R sum.case)
    qed
    consider "m < ql" | "qr \<le> m" | "ql \<le> m" "m < qr" by linarith
    then have "merge exact (if qr < l \<or> m < ql then Node 0 0 0 else agg a (max l ql) (min m qr))
                  (if qr < m + 1 \<or> r < ql then Node 0 0 0 else agg a (max (m + 1) ql) (min r qr))
         = agg a (max l ql) (min r qr)"
    proof cases
      case 1
      with m 3 less.prems(2) have "max (m + 1) ql = max l ql" "\<not> (qr < m + 1 \<or> r < ql)" by auto
      with 1 show ?thesis by (simp add: merge_empty_left)
    next
      case 2
      with m 3 less.prems(2) have "min m qr = min r qr" "\<not> (qr < l \<or> m < ql)" by auto
      with 2 show ?thesis by (simp add: merge_empty_right)
    next
      case 3
      then have e: "min m qr = m" "max (m + 1) ql = m + 1" by auto
      have "merge exact (agg a (max l ql) m) (agg a (m + 1) (min r qr)) = agg a (max l ql) (min r qr)"
        by (rule agg_merge) (use 3 m in auto)
      with 3 \<open>\<not> (qr < l \<or> r < ql)\<close> e show ?thesis by auto
    qed
    with res 3 show ?thesis by simp
  qed
qed

lemma query_recursive_returns:
  assumes "l \<le> r" and "\<forall>(j, lo, hi) \<in> set (positions i l r). j < length t"
  shows "\<exists>nd. query_recursive ar t i l r ql qr = Inr nd"
  using assms
proof (induction "r - l" arbitrary: i l r rule: less_induct)
  case less
  have root: "i < length t" using less.prems positions_head[of l r i] by auto
  show ?case
  proof (cases "(qr < l \<or> r < ql) \<or> (ql \<le> l \<and> r \<le> qr)")
    case True
    with root show ?thesis by (subst query_recursive.simps) auto
  next
    case False
    with less.prems have lr: "l < r" by auto
    define m where "m = (l + r) div 2"
    have m: "l \<le> m" "m < r" using lr by (auto simp: m_def)
    have pos: "positions i l r =
        (i, l, r) # positions (2 * i + 1) l m @ positions (2 * i + 2) (m + 1) r"
      unfolding m_def by (rule positions_inner[OF lr])
    have "\<exists>nd. query_recursive ar t (2 * i + 1) l m ql qr = Inr nd"
      by (rule less.hyps) (use m less.prems in \<open>auto simp: pos\<close>)
    then obtain nl where L: "query_recursive ar t (2 * i + 1) l m ql qr = Inr nl" by blast
    have "\<exists>nd. query_recursive ar t (2 * i + 2) (m + 1) r ql qr = Inr nd"
      by (rule less.hyps) (use m less.prems in \<open>auto simp: pos\<close>)
    then obtain nr where R: "query_recursive ar t (2 * i + 2) (m + 1) r ql qr = Inr nr" by blast
    from False have c1: "\<not> (qr < l \<or> r < ql)" and c2: "\<not> (ql \<le> l \<and> r \<le> qr)" by auto
    have "query_recursive ar t i l r ql qr = Inr (merge ar nl nr)"
      by (subst query_recursive.simps)
        (simp only: c1 c2 if_False Let_def m_def[symmetric] L R sum.case)
    then show ?thesis by blast
  qed
qed

section \<open>The invariant on whole trees\<close>

lemma positions_slots:
  "0 < k \<Longrightarrow> length t = 4 * k \<Longrightarrow> \<forall>(j, lo, hi) \<in> set (positions 0 0 (k - 1)). j < length t"
  using tree_positions_bound[of _ _ _ k] by (auto simp: tree_positions_def)

lemma construct_correct:
  "\<exists>t. construct ar a = Inr \<lparr>self_arr = a, self_n = length a, self_tree = t\<rparr> \<and>
       length t = 4 * length a \<and>
       (\<forall>(j, lo, hi) \<in> set (tree_positions (length a)). t ! j = tree_agg ar a lo hi) \<and>
       (\<forall>j. j \<notin> fst ` set (tree_positions (length a)) \<longrightarrow>
            t ! j = replicate (4 * length a) (Node 0 0 0) ! j)"
proof (cases "length a = 0")
  case True
  then show ?thesis by (simp add: construct_def tree_positions_def)
next
  case False
  let ?t0 = "replicate (4 * length a) (Node 0 0 0)"
  have "\<exists>t'. build ar a ?t0 0 0 (length a - 1) = (None, t') \<and> length t' = length ?t0 \<and>
           (\<forall>(j, lo, hi) \<in> set (positions 0 0 (length a - 1)). t' ! j = tree_agg ar a lo hi) \<and>
           (\<forall>j. j \<notin> fst ` set (positions 0 0 (length a - 1)) \<longrightarrow> t' ! j = ?t0 ! j)"
    by (rule build_correct) (use False positions_slots[of "length a" ?t0] in auto)
  then obtain t' where "build ar a ?t0 0 0 (length a - 1) = (None, t')" "length t' = length ?t0"
           "\<forall>(j, lo, hi) \<in> set (positions 0 0 (length a - 1)). t' ! j = tree_agg ar a lo hi"
           "\<forall>j. j \<notin> fst ` set (positions 0 0 (length a - 1)) \<longrightarrow> t' ! j = ?t0 ! j"
    by blast
  with False show ?thesis
    by (intro exI[of _ t']) (simp add: construct_def tree_positions_def)
qed

lemma construct_inv: "construct ar a = Inr st \<Longrightarrow> tree_inv ar st \<and> self_arr st = a"
  using construct_correct[of ar a] by (auto simp: tree_inv_def)

lemma update_correct:
  assumes "tree_inv ar st" and "0 \<le> index" and "index < int (self_n st)"
  shows "\<exists>t. update ar st index v =
               (None, st\<lparr>self_arr := (self_arr st)[nat index := v], self_tree := t\<rparr>) \<and>
             length t = length (self_tree st) \<and>
             (\<forall>(j, lo, hi) \<in> set (tree_positions (self_n st)).
                 t ! j = tree_agg ar ((self_arr st)[nat index := v]) lo hi) \<and>
             (\<forall>j. j \<notin> fst ` set (tree_positions (self_n st)) \<longrightarrow> t ! j = self_tree st ! j)"
proof -
  let ?k = "self_n st" and ?a = "self_arr st" and ?t = "self_tree st"
  from assms have k: "0 < ?k" "nat index < ?k" "?k = length ?a" "length ?t = 4 * ?k"
    and holds: "\<forall>(j, lo, hi) \<in> set (positions 0 0 (?k - 1)). ?t ! j = tree_agg ar ?a lo hi"
    by (auto simp: tree_inv_def tree_positions_def)
  have "\<exists>t'. update_recursive ar ?t 0 0 (?k - 1) (nat index) v = (None, t') \<and> length t' = length ?t \<and>
           (\<forall>(j, lo, hi) \<in> set (positions 0 0 (?k - 1)). t' ! j = tree_agg ar (?a[nat index := v]) lo hi) \<and>
           (\<forall>j. j \<notin> fst ` set (positions 0 0 (?k - 1)) \<longrightarrow> t' ! j = ?t ! j)"
    by (rule update_recursive_correct) (use k holds positions_slots[of ?k ?t] in auto)
  then obtain t' where "update_recursive ar ?t 0 0 (?k - 1) (nat index) v = (None, t')"
    "length t' = length ?t"
    "\<forall>(j, lo, hi) \<in> set (positions 0 0 (?k - 1)). t' ! j = tree_agg ar (?a[nat index := v]) lo hi"
    "\<forall>j. j \<notin> fst ` set (positions 0 0 (?k - 1)) \<longrightarrow> t' ! j = ?t ! j"
    by blast
  with k assms(2,3) show ?thesis
    by (intro exI[of _ t']) (simp add: update_def tree_positions_def)
qed

lemma update_inv:
  assumes "tree_inv ar st" and "update ar st index v = (None, st')"
  shows "tree_inv ar st'"
proof -
  from assms(2) have valid: "0 \<le> index" "index < int (self_n st)"
    by (auto simp: update_def split: if_splits)
  from update_correct[OF assms(1) valid, of v] assms show ?thesis
    by (auto simp: tree_inv_def)
qed

lemma reachable_inv: "reachable ar st \<Longrightarrow> tree_inv ar st"
  by (induction rule: reachable.induct) (auto simp: construct_inv update_inv)

lemma query_walk_correct:
  assumes "tree_inv exact st" and "0 \<le> lo" and "lo \<le> hi" and "hi < int (self_n st)"
  shows "query_recursive exact (self_tree st) 0 0 (self_n st - 1) (nat lo) (nat hi) =
           Inr (agg (self_arr st) (nat lo) (nat hi))"
proof -
  let ?k = "self_n st" and ?a = "self_arr st" and ?t = "self_tree st"
  from assms have k: "0 < ?k" "length ?t = 4 * ?k" "?k = length ?a"
    and inv: "\<forall>(j, lo, hi) \<in> set (positions 0 0 (?k - 1)). ?t ! j = tree_agg exact ?a lo hi"
    by (auto simp: tree_inv_def tree_positions_def)
  have holds: "\<forall>(j, lo, hi) \<in> set (positions 0 0 (?k - 1)). ?t ! j = agg ?a lo hi"
  proof (clarify)
    fix j l h assume mem: "(j, l, h) \<in> set (positions 0 0 (?k - 1))"
    have "?k - 1 < length ?a" using k by simp
    with positions_range[OF mem] have "l \<le> h" "h < length ?a" by simp_all
    then have "tree_agg exact ?a l h = agg ?a l h" by (rule tree_agg_exact)
    with inv mem show "?t ! j = agg ?a l h" by auto
  qed
  have "query_recursive exact ?t 0 0 (?k - 1) (nat lo) (nat hi) =
          Inr (if nat hi < 0 \<or> ?k - 1 < nat lo then Node 0 0 0
               else agg ?a (max 0 (nat lo)) (min (?k - 1) (nat hi)))"
    by (rule query_recursive_correct) (use k holds assms positions_slots[of ?k ?t] in auto)
  moreover have "min (?k - 1) (nat hi) = nat hi" "\<not> ?k - 1 < nat lo" using assms by auto
  ultimately show ?thesis by simp
qed

section \<open>Mean and variance of an aggregate\<close>

lemma sum_sq_dev:
  "(\<Sum>x\<leftarrow>xs. (x - c) * (x - c)) =
     (\<Sum>x\<leftarrow>xs. x * x) - 2 * c * sum_list xs + real (length xs) * c * (c::real)"
  by (induction xs) (simp_all add: algebra_simps)

lemma variance_formula:
  assumes "xs \<noteq> []"
  shows "(\<Sum>x\<leftarrow>xs. x * x) / real (length xs) -
           (sum_list xs / real (length xs)) * (sum_list xs / real (length xs)) =
         direct_variance xs"
proof -
  have n: "real (length xs) \<noteq> 0" using assms by simp
  show ?thesis
    unfolding direct_variance_def direct_mean_def sum_sq_dev
    using n by (simp add: field_simps)
qed

lemma direct_variance_nonneg: "0 \<le> direct_variance xs"
  unfolding direct_variance_def
  by (intro divide_nonneg_nonneg sum_list_nonneg) auto

lemma agg_sum: "suma (agg a lo hi) = direct_sum (segment a lo hi)"
  by (simp add: agg_def Node_def direct_sum_def)

lemma agg_mean:
  "lo \<le> hi \<Longrightarrow> hi < length a \<Longrightarrow>
   get_mean exact (agg a lo hi) = Inr (direct_mean (segment a lo hi))"
  by (simp add: agg_def Node_def get_mean_def true_divide_def direct_mean_def length_segment)

lemma agg_variance:
  assumes "lo \<le> hi" and "hi < length a"
  shows "get_variance exact (agg a lo hi) = Inr (direct_variance (segment a lo hi))"
proof -
  have len: "length (segment a lo hi) = hi + 1 - lo" using assms by (rule length_segment)
  then have ne: "segment a lo hi \<noteq> []" using assms by auto
  have "get_variance exact (agg a lo hi) =
      Inr (max 0 ((\<Sum>x\<leftarrow>segment a lo hi. x * x) / real (length (segment a lo hi)) -
       (sum_list (segment a lo hi) / real (length (segment a lo hi))) *
       (sum_list (segment a lo hi) / real (length (segment a lo hi)))))"
    using assms by (simp add: get_variance_def true_divide_def agg_def Node_def len Let_def)
  also have "\<dots> = Inr (max 0 (direct_variance (segment a lo hi)))"
    by (simp only: variance_formula[OF ne])
  finally show ?thesis using direct_variance_nonneg[of "segment a lo hi"] by simp
qed

lemma direct_mean_segment:
  "0 \<le> lo \<Longrightarrow> lo \<le> hi \<Longrightarrow> nat hi < length a \<Longrightarrow>
   direct_mean (segment a (nat lo) (nat hi)) =
     direct_sum (segment a (nat lo) (nat hi)) / real_of_int (hi - lo + 1)"
proof -
  assume a: "0 \<le> lo" "lo \<le> hi" "nat hi < length a"
  then have "length (segment a (nat lo) (nat hi)) = nat hi + 1 - nat lo"
    by (intro length_segment) auto
  also have "\<dots> = nat (hi - lo + 1)" using a by auto
  finally show ?thesis using a by (simp add: direct_mean_def direct_sum_def)
qed

lemma queries_correct:
  assumes "tree_inv exact st" and "0 \<le> lo" and "lo \<le> hi" and "hi < int (self_n st)"
  shows "query_sum exact st lo hi = Inr (direct_sum (segment (self_arr st) (nat lo) (nat hi)))"
    and "query_mean exact st lo hi = Inr (direct_mean (segment (self_arr st) (nat lo) (nat hi)))"
    and "query_variance exact st lo hi = Inr (direct_variance (segment (self_arr st) (nat lo) (nat hi)))"
proof -
  have w: "query_recursive exact (self_tree st) 0 0 (self_n st - 1) (nat lo) (nat hi) =
           Inr (agg (self_arr st) (nat lo) (nat hi))"
    using assms by (rule query_walk_correct)
  have b: "nat lo \<le> nat hi" "nat hi < length (self_arr st)"
    using assms by (auto simp: tree_inv_def)
  show "query_sum exact st lo hi = Inr (direct_sum (segment (self_arr st) (nat lo) (nat hi)))"
    using assms(2-4) w by (simp add: query_sum_def agg_sum)
  show "query_mean exact st lo hi = Inr (direct_mean (segment (self_arr st) (nat lo) (nat hi)))"
    using assms(2-4) w by (simp add: query_mean_def agg_mean[OF b])
  show "query_variance exact st lo hi = Inr (direct_variance (segment (self_arr st) (nat lo) (nat hi)))"
    using assms(2-4) w by (simp add: query_variance_def agg_variance[OF b])
qed

lemma direct_variance_constant:
  assumes "\<forall>x \<in> set xs. x = c" and "xs \<noteq> []"
  shows "direct_variance xs = 0"
proof -
  have xs: "xs = replicate (length xs) c"
    using assms(1) by (intro replicate_length_same[symmetric]) simp
  have n: "real (length xs) \<noteq> 0" using assms(2) by simp
  have "sum_list xs = real (length xs) * c"
    by (subst xs) (simp add: sum_list_replicate)
  then have mean: "direct_mean xs = c" using n by (simp add: direct_mean_def)
  have "(\<Sum>x\<leftarrow>xs. (x - c) * (x - c)) = 0"
    by (subst xs) (simp add: sum_list_replicate)
  then show ?thesis by (simp add: direct_variance_def mean)
qed

section \<open>Evaluation in Python arithmetic\<close>

lemma py_float_simps [simp]:
  "agg_round py_float = double_round" "stat_round py_float = double_round"
  "div_overflows py_float q = False"
  by (simp_all add: py_float_def)

lemma py_int_simps [simp]:
  "agg_round py_int q = q" "stat_round py_int = double_round"
  "div_overflows py_int q = (2 ^ 1024 - 2 ^ 970 \<le> \<bar>q\<bar>)"
  by (simp_all add: py_int_def)

lemmas double_eval = double_round_def binary_exponent_def round_half_even_def pow2_def
  bit_length.simps Let_def

text \<open>
  The rounding on known values: the floats \<open>0.3\<close> and \<open>1 / 3\<close>, the sum
  \<open>0.1 + 0.2\<close>, and two ties, which go to the even neighbour.
\<close>

lemma double_round_examples:
  "double_round (3 / 10) = 5404319552844595 / 18014398509481984"
  "double_round (1 / 3) = 6004799503160661 / 18014398509481984"
  "double_round (double_round (1 / 10) + double_round (2 / 10)) =
     1351079888211149 / 4503599627370496"
  "double_round 9007199254740993 = 9007199254740992"
  "double_round 9007199254740995 = 9007199254740996"
  by (simp_all add: double_eval)

text \<open>
  The float operations that the tree over the floats \<open>0.3, 0.3, 0.3\<close> performs, and those
  of the tree over \<open>0.1, 0.3, 0.3\<close>.
\<close>

lemma float_tree_steps:
  "double_round (3 / 10) = 5404319552844595 / 18014398509481984"
  "double_round ((5404319552844595 / 18014398509481984) * (5404319552844595 / 18014398509481984)) =
     3242591731706757 / 36028797018963968"
  "double_round (5404319552844595 / 18014398509481984 + 5404319552844595 / 18014398509481984) =
     5404319552844595 / 9007199254740992"
  "double_round (5404319552844595 / 9007199254740992 + 5404319552844595 / 18014398509481984) =
     2026619832316723 / 2251799813685248"
  "double_round (3242591731706757 / 36028797018963968 + 3242591731706757 / 36028797018963968) =
     3242591731706757 / 18014398509481984"
  "double_round (3242591731706757 / 18014398509481984 + 3242591731706757 / 36028797018963968) =
     607985949695017 / 2251799813685248"
  "double_round (2026619832316723 / 2251799813685248 / 3) =
     5404319552844595 / 18014398509481984"
  "double_round (607985949695017 / 2251799813685248 / 3) =
     6485183463413515 / 72057594037927936"
  "double_round (6485183463413515 / 72057594037927936 - 3242591731706757 / 36028797018963968) =
     1 / 72057594037927936"
  "double_round (1 / 10) = 3602879701896397 / 36028797018963968"
  "double_round ((3602879701896397 / 36028797018963968) * (3602879701896397 / 36028797018963968)) =
     1441151880758559 / 144115188075855872"
  "double_round (3602879701896397 / 36028797018963968 + 5404319552844595 / 18014398509481984) =
     3602879701896397 / 9007199254740992"
  "double_round (1441151880758559 / 144115188075855872 + 3242591731706757 / 36028797018963968) =
     3602879701896397 / 36028797018963968"
  "double_round (3602879701896397 / 9007199254740992 + 5404319552844595 / 18014398509481984) =
     3152519739159347 / 4503599627370496"
  "double_round (3602879701896397 / 36028797018963968 + 3242591731706757 / 36028797018963968) =
     3422735716801577 / 18014398509481984"
  by (simp_all add: double_eval)


section \<open>Verified properties\<close>

text \<open>
  C1. In exact arithmetic: for every sequence and every valid range \<open>0 \<le> lo \<le> hi < n\<close>,
  the constructor returns a tree on which \<open>query_sum\<close> is the direct sum of the slice,
  \<open>query_mean\<close> is that sum divided by \<open>hi - lo + 1\<close>, and \<open>query_variance\<close> is the
  population variance of the slice computed directly, clamped at zero.
\<close>

theorem query_matches_direct_computation:
  assumes "0 \<le> lo" and "lo \<le> hi" and "hi < int (length a)"
  shows "\<exists>st. construct exact a = Inr st \<and>
      query_sum exact st lo hi = Inr (direct_sum (segment a (nat lo) (nat hi))) \<and>
      query_mean exact st lo hi =
        Inr (direct_sum (segment a (nat lo) (nat hi)) / real_of_int (hi - lo + 1)) \<and>
      query_variance exact st lo hi = Inr (max 0 (direct_variance (segment a (nat lo) (nat hi))))"
proof -
  from construct_correct[of exact a] obtain st where st: "construct exact a = Inr st" by blast
  then have inv: "tree_inv exact st" and arr: "self_arr st = a" using construct_inv by auto
  then have n: "self_n st = length a" by (simp add: tree_inv_def)
  have valid: "hi < int (self_n st)" using assms n by simp
  have "max 0 (direct_variance (segment a (nat lo) (nat hi))) =
        direct_variance (segment a (nat lo) (nat hi))"
    using direct_variance_nonneg by simp
  moreover have "direct_mean (segment a (nat lo) (nat hi)) =
     direct_sum (segment a (nat lo) (nat hi)) / real_of_int (hi - lo + 1)"
    using assms by (intro direct_mean_segment) auto
  ultimately show ?thesis
    using st queries_correct[OF inv assms(1,2) valid] by (auto simp: arr)
qed

theorem query_matches_direct_computation_witness:
  "\<exists>st. construct exact [4, 8, 6, 2, 10, 12, 14, 16] = Inr st \<and>
      query_sum exact st 0 3 = Inr 20 \<and> query_mean exact st 0 3 = Inr 5 \<and> query_variance exact st 0 3 = Inr 5"
  using query_matches_direct_computation[of 0 3 "[4, 8, 6, 2, 10, 12, 14, 16]"]
  by (simp add: segment_def direct_sum_def direct_mean_def direct_variance_def)

lemma query_recursive_agree:
  assumes "l \<le> r" and "length t' = length t"
    and "\<forall>(j, lo, hi) \<in> set (positions i l r). ql \<le> lo \<and> hi \<le> qr \<longrightarrow> t' ! j = t ! j"
  shows "query_recursive ar t' i l r ql qr = query_recursive ar t i l r ql qr"
  using assms
proof (induction "r - l" arbitrary: i l r rule: less_induct)
  case less
  consider "qr < l \<or> r < ql" | "\<not> (qr < l \<or> r < ql)" "ql \<le> l \<and> r \<le> qr"
    | "\<not> (qr < l \<or> r < ql)" "\<not> (ql \<le> l \<and> r \<le> qr)" by blast
  then show ?case
  proof cases
    case 1
    then show ?thesis by (simp add: query_recursive.simps[of ar _ i l r])
  next
    case 2
    with less.prems(3) positions_head[OF less.prems(1), of i] have "t' ! i = t ! i" by auto
    with 2 less.prems(2) show ?thesis by (simp add: query_recursive.simps[of ar _ i l r])
  next
    case 3
    with less.prems have lr: "l < r" by auto
    define m where "m = (l + r) div 2"
    have m: "l \<le> m" "m < r" using lr by (auto simp: m_def)
    have pos: "positions i l r =
        (i, l, r) # positions (2 * i + 1) l m @ positions (2 * i + 2) (m + 1) r"
      unfolding m_def by (rule positions_inner[OF lr])
    have L: "query_recursive ar t' (2 * i + 1) l m ql qr =
             query_recursive ar t (2 * i + 1) l m ql qr"
      by (rule less.hyps) (use m less.prems in \<open>auto simp: pos\<close>)
    have R: "query_recursive ar t' (2 * i + 2) (m + 1) r ql qr =
             query_recursive ar t (2 * i + 2) (m + 1) r ql qr"
      by (rule less.hyps) (use m less.prems in \<open>auto simp: pos\<close>)
    show ?thesis
      by (subst query_recursive.simps, subst (2) query_recursive.simps)
        (simp only: 3 if_False Let_def m_def[symmetric] L R)
  qed
qed

text \<open>
  Two states that satisfy the invariant over the same backing sequence answer every query
  alike: a query reads the slots of positions only.
\<close>

lemma queries_determined:
  assumes "tree_inv ar s1" and "tree_inv ar s2" and "self_arr s1 = self_arr s2"
  shows "query_sum ar s1 lo hi = query_sum ar s2 lo hi"
    and "query_mean ar s1 lo hi = query_mean ar s2 lo hi"
    and "query_variance ar s1 lo hi = query_variance ar s2 lo hi"
proof -
  have n: "self_n s1 = self_n s2" using assms by (simp add: tree_inv_def)
  have len: "length (self_tree s1) = length (self_tree s2)"
    using assms n by (simp add: tree_inv_def)
  have w: "query_recursive ar (self_tree s1) 0 0 (self_n s1 - 1) ql qr =
           query_recursive ar (self_tree s2) 0 0 (self_n s1 - 1) ql qr" for ql qr
  proof (cases "self_n s1 = 0")
    case True
    then have "self_tree s1 = []" "self_tree s2 = []"
      using assms n by (simp_all add: tree_inv_def)
    then show ?thesis by simp
  next
    case False
    show ?thesis
    proof (rule query_recursive_agree)
      show "0 \<le> self_n s1 - 1" by simp
      show "length (self_tree s1) = length (self_tree s2)" by (rule len)
      show "\<forall>(j, l, h) \<in> set (positions 0 0 (self_n s1 - 1)).
              ql \<le> l \<and> h \<le> qr \<longrightarrow> self_tree s1 ! j = self_tree s2 ! j"
      proof (clarify)
        fix j l h assume mem: "(j, l, h) \<in> set (positions 0 0 (self_n s1 - 1))"
        then have m1: "(j, l, h) \<in> set (tree_positions (self_n s1))"
          using False by (simp add: tree_positions_def)
        then have m2: "(j, l, h) \<in> set (tree_positions (self_n s2))" by (simp add: n)
        have "self_tree s1 ! j = tree_agg ar (self_arr s1) l h"
          using assms(1) m1 by (auto simp: tree_inv_def)
        moreover have "self_tree s2 ! j = tree_agg ar (self_arr s2) l h"
          using assms(2) m2 by (auto simp: tree_inv_def)
        ultimately show "self_tree s1 ! j = self_tree s2 ! j" using assms(3) by simp
      qed
    qed
  qed
  show "query_sum ar s1 lo hi = query_sum ar s2 lo hi"
    using w[of "nat lo" "nat hi"] by (simp add: query_sum_def n[symmetric])
  show "query_mean ar s1 lo hi = query_mean ar s2 lo hi"
    using w[of "nat lo" "nat hi"] by (simp add: query_mean_def n[symmetric])
  show "query_variance ar s1 lo hi = query_variance ar s2 lo hi"
    using w[of "nat lo" "nat hi"] by (simp add: query_variance_def n[symmetric])
qed

text \<open>
  C2, as stated, fails on Python floats for the queries over a range that contains the
  updated index: on the floats \<open>0.1, 0.3, 0.3\<close>, after \<open>update(0, 0.3)\<close> the sequence is
  three times \<open>0.3\<close>, whose variance is \<open>0\<close>, and \<open>query_variance(0, 2)\<close> returns
  \<open>1 / 2 ^ 56\<close>.
\<close>

theorem update_consistency_counterexample:
  "fst (update py_float
          (projr (construct py_float
                    [double_round (1 / 10), double_round (3 / 10), double_round (3 / 10)]))
          0 (double_round (3 / 10))) = None \<and>
   get_array (snd (update py_float
          (projr (construct py_float
                    [double_round (1 / 10), double_round (3 / 10), double_round (3 / 10)]))
          0 (double_round (3 / 10)))) =
     [double_round (3 / 10), double_round (3 / 10), double_round (3 / 10)] \<and>
   query_variance py_float
     (snd (update py_float
          (projr (construct py_float
                    [double_round (1 / 10), double_round (3 / 10), double_round (3 / 10)]))
          0 (double_round (3 / 10)))) 0 2 = Inr (1 / 72057594037927936) \<and>
   max 0 (direct_variance (segment
     (get_array (snd (update py_float
          (projr (construct py_float
                    [double_round (1 / 10), double_round (3 / 10), double_round (3 / 10)]))
          0 (double_round (3 / 10))))) 0 2)) = 0"
proof -
  define x :: real where "x = 5404319552844595 / 18014398509481984"
  define sq :: real where "sq = 3242591731706757 / 36028797018963968"
  define s2 :: real where "s2 = 5404319552844595 / 9007199254740992"
  define s3 :: real where "s3 = 2026619832316723 / 2251799813685248"
  define q2 :: real where "q2 = 3242591731706757 / 18014398509481984"
  define q3 :: real where "q3 = 607985949695017 / 2251799813685248"
  define mq :: real where "mq = 6485183463413515 / 72057594037927936"
  define d :: real where "d = 3602879701896397 / 36028797018963968"
  define sqd :: real where "sqd = 1441151880758559 / 144115188075855872"
  define s01 :: real where "s01 = 3602879701896397 / 9007199254740992"
  define q01 :: real where "q01 = 3602879701896397 / 36028797018963968"
  define r0s :: real where "r0s = 3152519739159347 / 4503599627370496"
  define r0q :: real where "r0q = 3422735716801577 / 18014398509481984"
  note defs = x_def sq_def s2_def s3_def q2_def q3_def mq_def d_def sqd_def s01_def q01_def
    r0s_def r0q_def
  have x0: "double_round (3 / 10) = x" unfolding defs by (rule float_tree_steps)
  have d0: "double_round (1 / 10) = d" unfolding defs by (rule float_tree_steps)
  have r1: "double_round (x * x) = sq" unfolding defs by (rule float_tree_steps)
  have r2: "double_round (x + x) = s2" unfolding defs by (rule float_tree_steps)
  have r3: "double_round (s2 + x) = s3" unfolding defs by (rule float_tree_steps)
  have r4: "double_round (sq + sq) = q2" unfolding defs by (rule float_tree_steps)
  have r5: "double_round (q2 + sq) = q3" unfolding defs by (rule float_tree_steps)
  have r6: "double_round (s3 / 3) = x" unfolding defs by (rule float_tree_steps)
  have r7: "double_round (q3 / 3) = mq" unfolding defs by (rule float_tree_steps)
  have r8: "double_round (mq - sq) = 1 / 72057594037927936"
    unfolding defs by (rule float_tree_steps)
  have e1: "double_round (d * d) = sqd" unfolding defs by (rule float_tree_steps)
  have e2: "double_round (d + x) = s01" unfolding defs by (rule float_tree_steps)
  have e3: "double_round (sqd + sq) = q01" unfolding defs by (rule float_tree_steps)
  have e4: "double_round (s01 + x) = r0s" unfolding defs by (rule float_tree_steps)
  have e5: "double_round (q01 + sq) = r0q" unfolding defs by (rule float_tree_steps)
  have r2': "double_round (2 * x) = s2" using r2 by simp
  have r4': "double_round (2 * sq) = q2" using r4 by simp
  define st0 where "st0 =
    \<lparr>self_arr = [d, x, x], self_n = 3,
     self_tree = [Node r0s r0q 3, Node s01 q01 2, Node x sq 1, Node d sqd 1, Node x sq 1,
       Node 0 0 0, Node 0 0 0, Node 0 0 0, Node 0 0 0, Node 0 0 0, Node 0 0 0, Node 0 0 0]\<rparr>"
  define st1 where "st1 =
    \<lparr>self_arr = [x, x, x], self_n = 3,
     self_tree = [Node s3 q3 3, Node s2 q2 2, Node x sq 1, Node x sq 1, Node x sq 1,
       Node 0 0 0, Node 0 0 0, Node 0 0 0, Node 0 0 0, Node 0 0 0, Node 0 0 0, Node 0 0 0]\<rparr>"
  have c: "construct py_float [d, x, x] = Inr st0"
    unfolding st0_def
    by (simp add: construct_def build.simps Let_def merge_def Node_def numeral_eq_Suc
        r1 e1 e2 e3 e4 e5)
  have u: "update py_float st0 0 x = (None, st1)"
    unfolding st0_def st1_def
    by (simp add: update_def update_recursive.simps Let_def merge_def Node_def numeral_eq_Suc
        r1 r2 r3 r4 r5 r2' r4')
  have q: "query_variance py_float st1 0 2 = Inr (1 / 72057594037927936)"
    unfolding st1_def
    by (simp add: query_variance_def query_recursive.simps get_variance_def true_divide_def
        Node_def Let_def r1 r6 r7 r8)
  have g: "get_array st1 = [x, x, x]" by (simp add: st1_def get_array_def)
  have "segment [x, x, x] 0 2 = [x, x, x]" by (simp add: segment_def)
  moreover have "direct_variance [x, x, x] = 0"
    by (rule direct_variance_constant[of _ x]) simp_all
  ultimately have v: "max 0 (direct_variance (segment [x, x, x] 0 2)) = 0"
    by simp
  show ?thesis unfolding x0 d0 c by (simp add: u q g v)
qed

text \<open>
  C2, amended. In any arithmetic, a successful \<open>update(i, v)\<close> on a reachable tree stores
  \<open>v\<close> at \<open>i\<close> of the backing sequence, every query over a valid range without \<open>i\<close>
  returns what it returned before, and every query returns what it returns on the tree
  built from the updated sequence. In exact arithmetic every query over a valid range (so
  every one that contains \<open>i\<close>) then returns the statistic of the updated sequence,
  computed directly.
\<close>

theorem update_consistency:
  "(reachable ar st \<and> 0 \<le> i \<and> i < int (self_n st) \<longrightarrow>
      (\<exists>st'. update ar st i v = (None, st') \<and>
         get_array st' = (get_array st)[nat i := v] \<and> get_array st' ! nat i = v \<and>
         (\<forall>lo hi. 0 \<le> lo \<and> lo \<le> hi \<and> hi < int (self_n st) \<and> (i < lo \<or> hi < i) \<longrightarrow>
            query_sum ar st' lo hi = query_sum ar st lo hi \<and>
            query_mean ar st' lo hi = query_mean ar st lo hi \<and>
            query_variance ar st' lo hi = query_variance ar st lo hi))) \<and>
   (reachable ar st \<and> 0 \<le> i \<and> i < int (self_n st) \<longrightarrow>
      (\<exists>st' st''. update ar st i v = (None, st') \<and> construct ar (get_array st') = Inr st'' \<and>
         (\<forall>lo hi. query_sum ar st' lo hi = query_sum ar st'' lo hi \<and>
            query_mean ar st' lo hi = query_mean ar st'' lo hi \<and>
            query_variance ar st' lo hi = query_variance ar st'' lo hi))) \<and>
   (reachable exact st \<and> 0 \<le> i \<and> i < int (self_n st) \<longrightarrow>
      (\<exists>st'. update exact st i v = (None, st') \<and>
         (\<forall>lo hi. 0 \<le> lo \<and> lo \<le> hi \<and> hi < int (self_n st') \<longrightarrow>
            query_sum exact st' lo hi =
              Inr (direct_sum (segment (get_array st') (nat lo) (nat hi))) \<and>
            query_mean exact st' lo hi =
              Inr (direct_sum (segment (get_array st') (nat lo) (nat hi)) /
                   real_of_int (hi - lo + 1)) \<and>
            query_variance exact st' lo hi =
              Inr (max 0 (direct_variance (segment (get_array st') (nat lo) (nat hi)))))))"
proof -
  have A: "\<exists>st'. update ar st i v = (None, st') \<and>
         get_array st' = (get_array st)[nat i := v] \<and> get_array st' ! nat i = v \<and>
         (\<forall>lo hi. 0 \<le> lo \<and> lo \<le> hi \<and> hi < int (self_n st) \<and> (i < lo \<or> hi < i) \<longrightarrow>
            query_sum ar st' lo hi = query_sum ar st lo hi \<and>
            query_mean ar st' lo hi = query_mean ar st lo hi \<and>
            query_variance ar st' lo hi = query_variance ar st lo hi)"
    if r: "reachable ar st" and vi: "0 \<le> i" "i < int (self_n st)"
  proof -
    let ?k = "self_n st" and ?a = "self_arr st"
    have inv: "tree_inv ar st" using r by (rule reachable_inv)
    from update_correct[OF inv vi, of v] obtain t where
      u: "update ar st i v = (None, st\<lparr>self_arr := ?a[nat i := v], self_tree := t\<rparr>)"
      and lt: "length t = length (self_tree st)"
      and ht: "\<forall>(j, lo, hi) \<in> set (tree_positions ?k). t ! j = tree_agg ar (?a[nat i := v]) lo hi"
      by blast
    have len: "nat i < length ?a" using inv vi by (auto simp: tree_inv_def)
    have k: "0 < ?k" using vi by simp
    have hs: "\<forall>(j, lo, hi) \<in> set (tree_positions ?k). self_tree st ! j = tree_agg ar ?a lo hi"
      using inv by (simp add: tree_inv_def)
    have w: "query_recursive ar t 0 0 (?k - 1) (nat lo) (nat hi) =
             query_recursive ar (self_tree st) 0 0 (?k - 1) (nat lo) (nat hi)"
      if v: "0 \<le> lo" "lo \<le> hi" "hi < int ?k" and out: "i < lo \<or> hi < i" for lo hi
    proof (rule query_recursive_agree)
      show "0 \<le> ?k - 1" by simp
      show "length t = length (self_tree st)" by (rule lt)
      show "\<forall>(j, l, h) \<in> set (positions 0 0 (?k - 1)).
              nat lo \<le> l \<and> h \<le> nat hi \<longrightarrow> t ! j = self_tree st ! j"
      proof (clarify)
        fix j l h assume mem: "(j, l, h) \<in> set (positions 0 0 (?k - 1))"
          and inside: "nat lo \<le> l" "h \<le> nat hi"
        have mem': "(j, l, h) \<in> set (tree_positions ?k)"
          using mem k by (simp add: tree_positions_def)
        have lh: "l \<le> h" using positions_range[OF mem] by simp
        have "nat i < l \<or> h < nat i" using out inside v vi by auto
        with lh have e: "tree_agg ar (?a[nat i := v]) l h = tree_agg ar ?a l h"
          by (rule tree_agg_update_outside)
        have "t ! j = tree_agg ar (?a[nat i := v]) l h" using ht mem' by blast
        moreover have "self_tree st ! j = tree_agg ar ?a l h" using hs mem' by blast
        ultimately show "t ! j = self_tree st ! j" using e by simp
      qed
    qed
    have q: "query_sum ar (st\<lparr>self_arr := ?a[nat i := v], self_tree := t\<rparr>) lo hi =
               query_sum ar st lo hi \<and>
             query_mean ar (st\<lparr>self_arr := ?a[nat i := v], self_tree := t\<rparr>) lo hi =
               query_mean ar st lo hi \<and>
             query_variance ar (st\<lparr>self_arr := ?a[nat i := v], self_tree := t\<rparr>) lo hi =
               query_variance ar st lo hi"
      if v: "0 \<le> lo" "lo \<le> hi" "hi < int ?k" and out: "i < lo \<or> hi < i" for lo hi
      using w[OF v out] by (simp add: query_sum_def query_mean_def query_variance_def)
    from u len q show ?thesis
      by (intro exI[of _ "st\<lparr>self_arr := ?a[nat i := v], self_tree := t\<rparr>"])
        (simp add: get_array_def)
  qed
  have B: "\<exists>st'. update exact st i v = (None, st') \<and>
         (\<forall>lo hi. 0 \<le> lo \<and> lo \<le> hi \<and> hi < int (self_n st') \<longrightarrow>
            query_sum exact st' lo hi =
              Inr (direct_sum (segment (get_array st') (nat lo) (nat hi))) \<and>
            query_mean exact st' lo hi =
              Inr (direct_sum (segment (get_array st') (nat lo) (nat hi)) /
                   real_of_int (hi - lo + 1)) \<and>
            query_variance exact st' lo hi =
              Inr (max 0 (direct_variance (segment (get_array st') (nat lo) (nat hi)))))"
    if r: "reachable exact st" and vi: "0 \<le> i" "i < int (self_n st)"
  proof -
    have inv: "tree_inv exact st" using r by (rule reachable_inv)
    from update_correct[OF inv vi, of v] obtain st' where
      st': "update exact st i v = (None, st')"
      by auto
    have inv': "tree_inv exact st'" using inv st' by (rule update_inv)
    have q1: "query_sum exact st' lo hi =
              Inr (direct_sum (segment (get_array st') (nat lo) (nat hi))) \<and>
            query_mean exact st' lo hi =
              Inr (direct_sum (segment (get_array st') (nat lo) (nat hi)) /
                   real_of_int (hi - lo + 1)) \<and>
            query_variance exact st' lo hi =
              Inr (max 0 (direct_variance (segment (get_array st') (nat lo) (nat hi))))"
      if v: "0 \<le> lo" "lo \<le> hi" "hi < int (self_n st')" for lo hi
    proof -
      have "nat hi < length (self_arr st')" using inv' v by (auto simp: tree_inv_def)
      then have "direct_mean (segment (self_arr st') (nat lo) (nat hi)) =
        direct_sum (segment (self_arr st') (nat lo) (nat hi)) / real_of_int (hi - lo + 1)"
        using v by (intro direct_mean_segment) auto
      moreover have "max 0 (direct_variance (segment (self_arr st') (nat lo) (nat hi))) =
          direct_variance (segment (self_arr st') (nat lo) (nat hi))"
        using direct_variance_nonneg by simp
      ultimately show ?thesis using queries_correct[OF inv' v] by (simp add: get_array_def)
    qed
    from st' q1 show ?thesis by blast
  qed
  have C: "\<exists>st' st''. update ar st i v = (None, st') \<and>
         construct ar (get_array st') = Inr st'' \<and>
         (\<forall>lo hi. query_sum ar st' lo hi = query_sum ar st'' lo hi \<and>
            query_mean ar st' lo hi = query_mean ar st'' lo hi \<and>
            query_variance ar st' lo hi = query_variance ar st'' lo hi)"
    if r: "reachable ar st" and vi: "0 \<le> i" "i < int (self_n st)"
  proof -
    have inv: "tree_inv ar st" using r by (rule reachable_inv)
    from update_correct[OF inv vi, of v] obtain st' where
      st': "update ar st i v = (None, st')"
      by auto
    have inv': "tree_inv ar st'" using inv st' by (rule update_inv)
    from construct_correct[of ar "get_array st'"] obtain st'' where
      st'': "construct ar (get_array st') = Inr st''"
      by blast
    then have inv'': "tree_inv ar st''" and arr: "self_arr st' = self_arr st''"
      using construct_inv[of ar "get_array st'" st''] by (simp_all add: get_array_def)
    from st' st'' queries_determined[OF inv' inv'' arr] show ?thesis by blast
  qed
  from A B C show ?thesis by blast
qed

theorem update_consistency_witness:
  "\<exists>st st' st''. construct exact [10, 20, 30, 40, 50] = Inr st \<and>
      update exact st 0 30 = (None, st') \<and>
      get_array st' = [30, 20, 30, 40, 50] \<and> query_sum exact st' 0 4 = Inr 170 \<and>
      query_mean exact st' 0 1 = Inr 25 \<and>
      query_variance exact st' 1 4 = query_variance exact st 1 4 \<and>
      construct exact [30, 20, 30, 40, 50] = Inr st'' \<and>
      query_variance exact st' 0 2 = query_variance exact st'' 0 2"
proof -
  from construct_correct[of exact "[10, 20, 30, 40, 50]"] obtain st
    where c: "construct exact [10, 20, 30, 40, 50] = Inr st"
      and a: "self_arr st = [10, 20, 30, 40, 50]" and n: "self_n st = 5"
    by auto
  have r: "reachable exact st" using c by (rule reach_construct)
  have h: "reachable exact st \<and> (0::int) \<le> 0 \<and> 0 < int (self_n st)" using r by (simp add: n)
  note th = update_consistency[where ar = exact and st = st and i = 0 and v = 30]
  from th[THEN conjunct1, rule_format, OF h] obtain st' where
    u: "update exact st 0 30 = (None, st')" and g: "get_array st' = (get_array st)[nat 0 := 30]"
    and q2: "\<forall>lo hi. 0 \<le> lo \<and> lo \<le> hi \<and> hi < int (self_n st) \<and> (0 < lo \<or> hi < 0) \<longrightarrow>
         query_sum exact st' lo hi = query_sum exact st lo hi \<and>
         query_mean exact st' lo hi = query_mean exact st lo hi \<and>
         query_variance exact st' lo hi = query_variance exact st lo hi"
    by blast
  from th[THEN conjunct2, THEN conjunct2, rule_format, OF h] u have
    q1: "\<forall>lo hi. 0 \<le> lo \<and> lo \<le> hi \<and> hi < int (self_n st') \<longrightarrow>
         query_sum exact st' lo hi = Inr (direct_sum (segment (get_array st') (nat lo) (nat hi))) \<and>
         query_mean exact st' lo hi =
           Inr (direct_sum (segment (get_array st') (nat lo) (nat hi)) / real_of_int (hi - lo + 1)) \<and>
         query_variance exact st' lo hi =
           Inr (max 0 (direct_variance (segment (get_array st') (nat lo) (nat hi))))"
    by auto
  have n': "self_n st' = 5" using u n by (auto simp: update_def Let_def split: if_splits prod.splits)
  have g': "get_array st' = [30, 20, 30, 40, 50]" using g a by (simp add: get_array_def)
  have "query_sum exact st' 0 4 = Inr 170" using q1[rule_format, of 0 4] n' g'
    by (simp add: segment_def direct_sum_def)
  moreover have "query_mean exact st' 0 1 = Inr 25" using q1[rule_format, of 0 1] n' g'
    by (simp add: segment_def direct_sum_def)
  moreover have "query_variance exact st' 1 4 = query_variance exact st 1 4"
    using q2[rule_format, of 1 4] n by simp
  moreover from th[THEN conjunct2, THEN conjunct1, rule_format, OF h] u g' obtain st''
    where "construct exact [30, 20, 30, 40, 50] = Inr st''"
      and "query_variance exact st' 0 2 = query_variance exact st'' 0 2"
    by auto
  ultimately show ?thesis using c u g' by blast
qed

text \<open>
  C6. In exact arithmetic, \<open>merge\<close> is associative and commutative in every field, and the
  empty aggregate is its identity on both sides.
\<close>

theorem merge_monoid:
  "merge exact (merge exact a b) c = merge exact a (merge exact b c) \<and> merge exact a b = merge exact b a \<and>
   merge exact (Node 0 0 0) x = x \<and> merge exact x (Node 0 0 0) = x"
  by (simp add: merge_def Node_def)

lemma tree_positions_root: "0 < k \<Longrightarrow> (0, 0, k - 1) \<in> set (tree_positions k)"
  by (simp add: tree_positions_def positions_head)

lemma tree_positions_range:
  "(j, lo, hi) \<in> set (tree_positions k) \<Longrightarrow> lo \<le> hi \<and> hi < k"
  using positions_range[of j lo hi 0 0 "k - 1"]
  by (auto simp: tree_positions_def split: if_splits)

text \<open>
  C3. In every reachable state, in any arithmetic, the slot of every position that covers
  \<open>[lo, hi]\<close> lies in the tree array and has \<open>count = hi - lo + 1\<close>; the root has
  \<open>count = n\<close> when \<open>n \<ge> 1\<close>.
\<close>

theorem node_count_invariant:
  assumes "reachable ar st"
  shows "(\<forall>(j, lo, hi) \<in> set (tree_positions (self_n st)).
            j < length (self_tree st) \<and> count (self_tree st ! j) = int hi - int lo + 1) \<and>
         (1 \<le> self_n st \<longrightarrow> count (self_tree st ! 0) = int (self_n st))"
proof -
  have inv: "tree_inv ar st" using assms by (rule reachable_inv)
  have a: "j < length (self_tree st) \<and> count (self_tree st ! j) = int hi - int lo + 1"
    if mem: "(j, lo, hi) \<in> set (tree_positions (self_n st))" for j lo hi
  proof -
    have "self_tree st ! j = tree_agg ar (self_arr st) lo hi"
      using inv mem by (auto simp: tree_inv_def)
    moreover have "lo \<le> hi" using tree_positions_range[OF mem] by simp
    moreover have "j < length (self_tree st)"
      using tree_positions_bound[OF mem] inv by (simp add: tree_inv_def)
    ultimately show ?thesis by (simp add: count_tree_agg)
  qed
  have b: "count (self_tree st ! 0) = int (self_n st)" if "1 \<le> self_n st"
    using a[OF tree_positions_root[of "self_n st"]] that by simp
  from a b show ?thesis by blast
qed

theorem node_count_invariant_witness:
  "\<exists>st st'. construct exact [4, 8, 6] = Inr st \<and> update exact st 1 5 = (None, st') \<and>
     tree_positions (self_n st') = [(0, 0, 2), (1, 0, 1), (3, 0, 0), (4, 1, 1), (2, 2, 2)] \<and>
     map (\<lambda>(j, lo, hi). count (self_tree st' ! j)) (tree_positions (self_n st')) = [3, 2, 1, 1, 1] \<and>
     count (self_tree st' ! 0) = 3"
proof -
  from construct_correct[of exact "[4, 8, 6]"] obtain st
    where c: "construct exact [4, 8, 6] = Inr st" and n: "self_n st = 3"
    by auto
  have r: "reachable exact st" using c by (rule reach_construct)
  from update_correct[OF reachable_inv[OF r], of 1 5] n obtain st'
    where u: "update exact st 1 5 = (None, st')" and n': "self_n st' = 3"
    by auto
  have r': "reachable exact st'" using r u by (rule reach_update)
  have p: "tree_positions 3 = [(0, 0, 2), (1, 0, 1), (3, 0, 0), (4, 1, 1), (2, 2, 2)]"
    by code_simp
  from node_count_invariant[OF r'] c u show ?thesis
    by (auto simp: n' p)
qed

lemma query_recursive_error:
  "query_recursive ar t i l r ql qr = Inl e \<Longrightarrow> e = IndexError"
proof (induction "r - l" arbitrary: i l r rule: less_induct)
  case less
  show ?case
  proof (cases "(qr < l \<or> r < ql) \<or> (ql \<le> l \<and> r \<le> qr)")
    case True
    with less.prems show ?thesis
      by (subst (asm) query_recursive.simps) (auto split: if_splits)
  next
    case False
    then have lr: "l < r" by auto
    define m where "m = (l + r) div 2"
    have m: "l \<le> m" "m < r" using lr by (auto simp: m_def)
    have L: "e = IndexError" if a: "query_recursive ar t (2 * i + 1) l m ql qr = Inl e"
      by (rule less.hyps[OF _ a]) (use m in auto)
    have R: "e = IndexError" if a: "query_recursive ar t (2 * i + 2) (m + 1) r ql qr = Inl e"
      by (rule less.hyps[OF _ a]) (use m in auto)
    from False have c1: "\<not> (qr < l \<or> r < ql)" and c2: "\<not> (ql \<le> l \<and> r \<le> qr)" by auto
    have "query_recursive ar t i l r ql qr =
           (case query_recursive ar t (2 * i + 1) l m ql qr of
              Inl e \<Rightarrow> Inl e
            | Inr left_result \<Rightarrow>
                (case query_recursive ar t (2 * i + 2) (m + 1) r ql qr of
                   Inl e \<Rightarrow> Inl e
                 | Inr right_result \<Rightarrow> Inr (merge ar left_result right_result)))"
      by (subst query_recursive.simps) (simp only: c1 c2 if_False Let_def m_def[symmetric])
    with less.prems L R show ?thesis by (auto split: sum.splits)
  qed
qed

text \<open>
  C4. In any arithmetic, each of the three queries raises \<open>ValueError\<close> exactly when
  \<open>lo > hi\<close>, \<open>lo < 0\<close> or \<open>hi \<ge> n\<close>, in any state; with \<open>n = 0\<close> every query is
  rejected. The queries read the state and assign to no field of it, so they return a result
  and no new state: the state after a query, failed or not, is the state before it.
\<close>

theorem query_invalid_range:
  "(query_sum ar st lo hi = Inl ValueError \<longleftrightarrow> lo > hi \<or> lo < 0 \<or> hi \<ge> int (self_n st)) \<and>
   (query_mean ar st lo hi = Inl ValueError \<longleftrightarrow> lo > hi \<or> lo < 0 \<or> hi \<ge> int (self_n st)) \<and>
   (query_variance ar st lo hi = Inl ValueError \<longleftrightarrow> lo > hi \<or> lo < 0 \<or> hi \<ge> int (self_n st)) \<and>
   (self_n st = 0 \<longrightarrow> query_sum ar st lo hi = Inl ValueError \<and> query_mean ar st lo hi = Inl ValueError \<and>
      query_variance ar st lo hi = Inl ValueError)"
proof -
  have w: "query_recursive ar (self_tree st) 0 0 (self_n st - 1) (nat lo) (nat hi) \<noteq> Inl ValueError"
    using query_recursive_error by fastforce
  have gm: "get_mean ar nd \<noteq> Inl ValueError" for nd
    using get_mean_error[of ar nd ValueError] by auto
  have gv: "get_variance ar nd \<noteq> Inl ValueError" for nd
    using get_variance_error[of ar nd ValueError] by auto
  have s: "query_sum ar st lo hi = Inl ValueError \<longleftrightarrow> lo > hi \<or> lo < 0 \<or> hi \<ge> int (self_n st)"
    using w by (auto simp: query_sum_def split: sum.splits)
  have m: "query_mean ar st lo hi = Inl ValueError \<longleftrightarrow> lo > hi \<or> lo < 0 \<or> hi \<ge> int (self_n st)"
    using w gm by (auto simp: query_mean_def split: sum.splits)
  have v: "query_variance ar st lo hi = Inl ValueError \<longleftrightarrow> lo > hi \<or> lo < 0 \<or> hi \<ge> int (self_n st)"
    using w gv by (auto simp: query_variance_def split: sum.splits)
  have z: "lo > hi \<or> lo < 0 \<or> hi \<ge> int (self_n st)" if "self_n st = 0"
    using that by auto
  from s m v z show ?thesis by blast
qed

theorem query_invalid_range_witness:
  "\<exists>st0 st. construct exact [] = Inr st0 \<and> construct exact [42] = Inr st \<and>
     query_sum exact st0 0 0 = Inl ValueError \<and> query_mean exact st0 0 0 = Inl ValueError \<and>
     query_variance exact st0 0 0 = Inl ValueError \<and>
     query_sum exact st 3 2 = Inl ValueError \<and> query_sum exact st (- 1) 0 = Inl ValueError \<and>
     query_sum exact st 0 1 = Inl ValueError \<and> query_sum exact st 0 0 \<noteq> Inl ValueError"
proof -
  from construct_correct[of exact "[]"] obtain st0
    where c0: "construct exact [] = Inr st0" and n0: "self_n st0 = 0"
    by auto
  from construct_correct[of exact "[42]"] obtain st
    where c: "construct exact [42] = Inr st" and n: "self_n st = 1"
    by auto
  from query_invalid_range[of exact st0 0 0] n0
  have "query_sum exact st0 0 0 = Inl ValueError \<and> query_mean exact st0 0 0 = Inl ValueError \<and>
     query_variance exact st0 0 0 = Inl ValueError" by simp
  moreover from query_invalid_range[of exact st 3 2] have "query_sum exact st 3 2 = Inl ValueError" by simp
  moreover from query_invalid_range[of exact st "- 1" 0] have "query_sum exact st (- 1) 0 = Inl ValueError"
    by simp
  moreover from query_invalid_range[of exact st 0 1] n have "query_sum exact st 0 1 = Inl ValueError" by simp
  moreover from query_invalid_range[of exact st 0 0] n have "query_sum exact st 0 0 \<noteq> Inl ValueError"
    by simp
  ultimately show ?thesis using c0 c by blast
qed

text \<open>
  C5. On a reachable tree, in any arithmetic, \<open>update\<close> raises \<open>IndexError\<close> exactly when
  \<open>index < 0\<close> or \<open>index \<ge> n\<close>, and then the state after the call (backing sequence and
  every node slot) is the state before it.
\<close>

theorem update_out_of_range:
  assumes "reachable ar st"
  shows "(fst (update ar st i v) = Some IndexError \<longleftrightarrow> i < 0 \<or> i \<ge> int (self_n st)) \<and>
         (i < 0 \<or> i \<ge> int (self_n st) \<longrightarrow> snd (update ar st i v) = st)"
proof (cases "i < 0 \<or> i \<ge> int (self_n st)")
  case True
  then show ?thesis by (auto simp: update_def)
next
  case False
  then have "0 \<le> i" "i < int (self_n st)" by auto
  from update_correct[OF reachable_inv[OF assms] this, of v] False show ?thesis by auto
qed

theorem update_out_of_range_witness:
  "\<exists>st. construct exact [4, 8, 6] = Inr st \<and>
     update exact st (- 1) 7 = (Some IndexError, st) \<and> update exact st 3 7 = (Some IndexError, st) \<and>
     fst (update exact st 2 7) \<noteq> Some IndexError"
proof -
  from construct_correct[of exact "[4, 8, 6]"] obtain st
    where c: "construct exact [4, 8, 6] = Inr st" and n: "self_n st = 3"
    by auto
  have r: "reachable exact st" using c by (rule reach_construct)
  have "update exact st (- 1) 7 = (Some IndexError, st)"
    using update_out_of_range[OF r, of "- 1" 7] by (simp add: prod_eq_iff)
  moreover have "update exact st 3 7 = (Some IndexError, st)"
    using update_out_of_range[OF r, of 3 7] n by (simp add: prod_eq_iff)
  moreover have "fst (update exact st 2 7) \<noteq> Some IndexError"
    using update_out_of_range[OF r, of 2 7] n by simp
  ultimately show ?thesis using c by blast
qed







text \<open>
  C8. In any arithmetic, the constructor returns for every sequence, with exactly \<open>4 * n\<close>
  node slots; the index of every position of a tree over \<open>k\<close> elements is below \<open>4 * k\<close>;
  and on a reachable tree an update at a valid index raises nothing, the walk of a query
  over a valid range returns a node, and no query raises \<open>IndexError\<close>: none of their list
  accesses is out of range.
\<close>

theorem no_out_of_bounds_access:
  "(\<exists>st. construct ar a = Inr st \<and> length (self_tree st) = 4 * length a) \<and>
   (\<forall>(j, lo, hi) \<in> set (tree_positions k). j < 4 * k) \<and>
   (reachable ar st \<longrightarrow>
      length (self_tree st) = 4 * self_n st \<and>
      (0 \<le> i \<and> i < int (self_n st) \<longrightarrow> fst (update ar st i v) = None) \<and>
      (0 \<le> lo \<and> lo \<le> hi \<and> hi < int (self_n st) \<longrightarrow>
         (\<exists>nd. query_recursive ar (self_tree st) 0 0 (self_n st - 1) (nat lo) (nat hi) =
                 Inr nd) \<and>
         (\<exists>x. query_sum ar st lo hi = Inr x) \<and>
         query_mean ar st lo hi \<noteq> Inl IndexError \<and>
         query_variance ar st lo hi \<noteq> Inl IndexError))"
proof -
  have a: "\<exists>st. construct ar a = Inr st \<and> length (self_tree st) = 4 * length a"
    using construct_correct[of ar a] by auto
  have b: "\<forall>(j, lo, hi) \<in> set (tree_positions k). j < 4 * k"
    using tree_positions_bound by auto
  have c: "length (self_tree st) = 4 * self_n st \<and>
      (0 \<le> i \<and> i < int (self_n st) \<longrightarrow> fst (update ar st i v) = None) \<and>
      (0 \<le> lo \<and> lo \<le> hi \<and> hi < int (self_n st) \<longrightarrow>
         (\<exists>nd. query_recursive ar (self_tree st) 0 0 (self_n st - 1) (nat lo) (nat hi) =
                 Inr nd) \<and>
         (\<exists>x. query_sum ar st lo hi = Inr x) \<and>
         query_mean ar st lo hi \<noteq> Inl IndexError \<and>
         query_variance ar st lo hi \<noteq> Inl IndexError)" if r: "reachable ar st"
  proof -
    have inv: "tree_inv ar st" using r by (rule reachable_inv)
    have "fst (update ar st i v) = None" if "0 \<le> i" "i < int (self_n st)"
      using update_correct[OF inv that, of v] by auto
    moreover have
      "(\<exists>nd. query_recursive ar (self_tree st) 0 0 (self_n st - 1) (nat lo) (nat hi) = Inr nd) \<and>
       (\<exists>x. query_sum ar st lo hi = Inr x) \<and>
       query_mean ar st lo hi \<noteq> Inl IndexError \<and>
       query_variance ar st lo hi \<noteq> Inl IndexError"
      if v: "0 \<le> lo" "lo \<le> hi" "hi < int (self_n st)"
    proof -
      have k: "0 < self_n st" "length (self_tree st) = 4 * self_n st"
        using inv v by (auto simp: tree_inv_def)
      have "\<exists>nd. query_recursive ar (self_tree st) 0 0 (self_n st - 1) (nat lo) (nat hi) = Inr nd"
        by (rule query_recursive_returns) (use positions_slots[OF k] in auto)
      then obtain nd where w:
        "query_recursive ar (self_tree st) 0 0 (self_n st - 1) (nat lo) (nat hi) = Inr nd"
        by blast
      have "get_mean ar nd \<noteq> Inl IndexError" using get_mean_error by fastforce
      moreover have "get_variance ar nd \<noteq> Inl IndexError" using get_variance_error by fastforce
      ultimately show ?thesis
        using v w by (simp add: query_sum_def query_mean_def query_variance_def)
    qed
    ultimately show ?thesis using inv by (auto simp: tree_inv_def)
  qed
  from a b c show ?thesis by blast
qed

theorem no_out_of_bounds_access_witness:
  "\<exists>st. construct exact [4, 8, 6, 2, 10] = Inr st \<and> length (self_tree st) = 20 \<and>
     list_all (\<lambda>(j, lo, hi). j < 20) (tree_positions 5) \<and>
     map fst (tree_positions 5) = [0, 1, 3, 7, 8, 4, 2, 5, 6] \<and>
     fst (update exact st 4 1) = None \<and> (\<exists>x. query_sum exact st 1 3 = Inr x) \<and>
     query_variance exact st 1 3 \<noteq> Inl IndexError"
proof -
  have p: "\<forall>(j, lo, hi) \<in> set (tree_positions 5). j < 20"
    using no_out_of_bounds_access[of exact "[4, 8, 6, 2, 10]" 5] by simp
  have "\<exists>st. construct exact [4, 8, 6, 2, 10] = Inr st \<and> length (self_tree st) = 20"
    using no_out_of_bounds_access[of exact "[4, 8, 6, 2, 10]", THEN conjunct1] by simp
  then obtain st
    where c: "construct exact [4, 8, 6, 2, 10] = Inr st" and l: "length (self_tree st) = 20"
    by blast
  have n: "self_n st = 5" using c construct_inv[OF c] by (simp add: tree_inv_def)
  have r: "reachable exact st" using c by (rule reach_construct)
  have e: "map fst (tree_positions 5) = [0, 1, 3, 7, 8, 4, 2, 5, 6]" by code_simp
  have "fst (update exact st 4 1) = None"
    using no_out_of_bounds_access[of exact _ _ st 4 1] r n by simp
  moreover have "\<exists>x. query_sum exact st 1 3 = Inr x"
    using no_out_of_bounds_access[of exact _ _ st _ _ 1 3] r n by simp
  moreover have "query_variance exact st 1 3 \<noteq> Inl IndexError"
    using no_out_of_bounds_access[of exact _ _ st _ _ 1 3] r n by simp
  ultimately show ?thesis using c l p e by (auto simp: list_all_iff)
qed

text \<open>
  C10. On a reachable tree, in any arithmetic, updates at two distinct valid indices succeed
  in either order and end in the same state: the same backing sequence and the same node in
  every slot.
\<close>

theorem updates_commute:
  assumes "reachable ar st" and "0 \<le> i" and "i < int (self_n st)"
    and "0 \<le> j" and "j < int (self_n st)" and "i \<noteq> j"
  shows "\<exists>s1 s2 s. update ar st i v = (None, s1) \<and> update ar s1 j w = (None, s) \<and>
                  update ar st j w = (None, s2) \<and> update ar s2 i v = (None, s)"
proof -
  let ?a = "self_arr st" and ?k = "self_n st"
  have inv: "tree_inv ar st" using assms(1) by (rule reachable_inv)
  from update_correct[OF inv assms(2,3), of v] obtain t1 where
    u1: "update ar st i v = (None, st\<lparr>self_arr := ?a[nat i := v], self_tree := t1\<rparr>)"
    and l1: "length t1 = length (self_tree st)"
    and f1: "\<forall>p. p \<notin> fst ` set (tree_positions ?k) \<longrightarrow> t1 ! p = self_tree st ! p"
    by blast
  define s1 where "s1 = st\<lparr>self_arr := ?a[nat i := v], self_tree := t1\<rparr>"
  have inv1: "tree_inv ar s1" using inv u1 unfolding s1_def by (rule update_inv)
  have n1: "self_n s1 = ?k" by (simp add: s1_def)
  have j1: "j < int (self_n s1)" using assms(5) n1 by simp
  from update_correct[OF inv1 assms(4) j1, of w] obtain t12 where
    u12: "update ar s1 j w = (None, s1\<lparr>self_arr := (self_arr s1)[nat j := w], self_tree := t12\<rparr>)"
    and l12: "length t12 = length (self_tree s1)"
    and h12: "\<forall>(p, lo, hi) \<in> set (tree_positions (self_n s1)).
                 t12 ! p = tree_agg ar ((self_arr s1)[nat j := w]) lo hi"
    and f12: "\<forall>p. p \<notin> fst ` set (tree_positions (self_n s1)) \<longrightarrow> t12 ! p = self_tree s1 ! p"
    by blast
  from update_correct[OF inv assms(4,5), of w] obtain t2 where
    u2: "update ar st j w = (None, st\<lparr>self_arr := ?a[nat j := w], self_tree := t2\<rparr>)"
    and l2: "length t2 = length (self_tree st)"
    and f2: "\<forall>p. p \<notin> fst ` set (tree_positions ?k) \<longrightarrow> t2 ! p = self_tree st ! p"
    by blast
  define s2 where "s2 = st\<lparr>self_arr := ?a[nat j := w], self_tree := t2\<rparr>"
  have inv2: "tree_inv ar s2" using inv u2 unfolding s2_def by (rule update_inv)
  have n2: "self_n s2 = ?k" by (simp add: s2_def)
  have i2: "i < int (self_n s2)" using assms(3) n2 by simp
  from update_correct[OF inv2 assms(2) i2, of v] obtain t21 where
    u21: "update ar s2 i v = (None, s2\<lparr>self_arr := (self_arr s2)[nat i := v], self_tree := t21\<rparr>)"
    and l21: "length t21 = length (self_tree s2)"
    and h21: "\<forall>(p, lo, hi) \<in> set (tree_positions (self_n s2)).
                 t21 ! p = tree_agg ar ((self_arr s2)[nat i := v]) lo hi"
    and f21: "\<forall>p. p \<notin> fst ` set (tree_positions (self_n s2)) \<longrightarrow> t21 ! p = self_tree s2 ! p"
    by blast
  have ne: "nat i \<noteq> nat j" using assms(2,4,6) by auto
  have arr: "(self_arr s1)[nat j := w] = (self_arr s2)[nat i := v]"
    using ne by (simp add: s1_def s2_def list_update_swap)
  have tree: "t12 = t21"
  proof (rule nth_equalityI)
    show "length t12 = length t21" using l12 l21 l1 l2 by (simp add: s1_def s2_def)
  next
    fix p assume "p < length t12"
    show "t12 ! p = t21 ! p"
    proof (cases "p \<in> fst ` set (tree_positions ?k)")
      case True
      then obtain lo hi where "(p, lo, hi) \<in> set (tree_positions ?k)" by force
      with h12 h21 n1 n2 arr show ?thesis by fastforce
    next
      case False
      with f12 f21 f1 f2 n1 n2 show ?thesis by (simp add: s1_def s2_def)
    qed
  qed
  have "s1\<lparr>self_arr := (self_arr s1)[nat j := w], self_tree := t12\<rparr> =
        s2\<lparr>self_arr := (self_arr s2)[nat i := v], self_tree := t21\<rparr>"
    using arr tree by (simp add: s1_def s2_def)
  with u1 u12 u2 u21 show ?thesis unfolding s1_def[symmetric] s2_def[symmetric] by auto
qed

theorem updates_commute_witness:
  "\<exists>st s1 s2 s. construct exact [10, 20, 30, 40, 50] = Inr st \<and>
      update exact st 0 30 = (None, s1) \<and> update exact s1 4 30 = (None, s) \<and>
      update exact st 4 30 = (None, s2) \<and> update exact s2 0 30 = (None, s)"
proof -
  from construct_correct[of exact "[10, 20, 30, 40, 50]"] obtain st
    where c: "construct exact [10, 20, 30, 40, 50] = Inr st" and n: "self_n st = 5"
    by auto
  have r: "reachable exact st" using c by (rule reach_construct)
  have "\<exists>s1 s2 s. update exact st 0 30 = (None, s1) \<and> update exact s1 4 30 = (None, s) \<and>
                  update exact st 4 30 = (None, s2) \<and> update exact s2 0 30 = (None, s)"
    by (rule updates_commute[OF r]) (simp_all add: n)
  with c show ?thesis by blast
qed

lemma load_mutate_other:
  "r \<noteq> obj_arr ob \<Longrightarrow> load (mutate_list s r xs) ob = load s ob"
  by (simp add: load_def mutate_list_def)

lemma init_object_correct:
  assumes "arr < length s"
  shows "\<exists>ob st. init_object ar s arr = Inr (ob, s @ [s ! arr]) \<and> obj_arr ob = length s \<and>
           construct ar (s ! arr) = Inr st \<and> load (s @ [s ! arr]) ob = st"
proof -
  from construct_correct[of ar "s ! arr"] obtain t where
    c: "construct ar (s ! arr) = Inr \<lparr>self_arr = s ! arr, self_n = length (s ! arr), self_tree = t\<rparr>"
    by blast
  then show ?thesis
    by (simp add: init_object_def copy_list_def load_def)
qed

text \<open>
  C9. The constructor keeps a copy of its input: the object denotes the state built from the
  input's elements, and no later change of the input list changes that state, its backing
  sequence or any query result. \<open>get_array\<close> returns a new list with the elements of the
  backing sequence, and no change of the returned list changes the state of the object.
  \<open>update\<close> on the object is \<open>update\<close> on the state it denotes, keeps the reference to the
  backing list and changes no other list, so the returned copy reflects the updates made so
  far.
\<close>

theorem defensive_copies:
  "(arr < length s \<longrightarrow>
      (\<exists>ob s1 st. init_object ar s arr = Inr (ob, s1) \<and> construct ar (s ! arr) = Inr st \<and>
         load s1 ob = st \<and> s1 ! arr = s ! arr \<and> obj_arr ob < length s1 \<and>
         (\<forall>xs. load (mutate_list s1 arr xs) ob = load s1 ob \<and>
               get_array (load (mutate_list s1 arr xs) ob) = s ! arr \<and>
               (\<forall>lo hi. query_sum ar (load (mutate_list s1 arr xs) ob) lo hi = query_sum ar st lo hi \<and>
                        query_mean ar (load (mutate_list s1 arr xs) ob) lo hi = query_mean ar st lo hi \<and>
                        query_variance ar (load (mutate_list s1 arr xs) ob) lo hi =
                          query_variance ar st lo hi)))) \<and>
   (obj_arr ob < length s \<longrightarrow>
      (\<exists>r s2. obj_get_array s ob = (r, s2) \<and> s2 ! r = get_array (load s ob) \<and>
         r \<noteq> obj_arr ob \<and> load s2 ob = load s ob \<and>
         (\<forall>xs. load (mutate_list s2 r xs) ob = load s ob))) \<and>
   (obj_arr ob < length s \<longrightarrow>
      (\<exists>e ob' s'. obj_update ar s ob i v = (e, ob', s') \<and> (e, load s' ob') = update ar (load s ob) i v \<and>
         obj_arr ob' = obj_arr ob \<and> length s' = length s \<and>
         (\<forall>r. r \<noteq> obj_arr ob \<longrightarrow> s' ! r = s ! r)))"
proof -
  have a: "\<exists>ob s1 st. init_object ar s arr = Inr (ob, s1) \<and> construct ar (s ! arr) = Inr st \<and>
         load s1 ob = st \<and> s1 ! arr = s ! arr \<and> obj_arr ob < length s1 \<and>
         (\<forall>xs. load (mutate_list s1 arr xs) ob = load s1 ob \<and>
               get_array (load (mutate_list s1 arr xs) ob) = s ! arr \<and>
               (\<forall>lo hi. query_sum ar (load (mutate_list s1 arr xs) ob) lo hi = query_sum ar st lo hi \<and>
                        query_mean ar (load (mutate_list s1 arr xs) ob) lo hi = query_mean ar st lo hi \<and>
                        query_variance ar (load (mutate_list s1 arr xs) ob) lo hi =
                          query_variance ar st lo hi))" if lt: "arr < length s"
  proof -
    from init_object_correct[OF lt] obtain ob st where
      i: "init_object ar s arr = Inr (ob, s @ [s ! arr])" and r: "obj_arr ob = length s"
      and c: "construct ar (s ! arr) = Inr st" and l: "load (s @ [s ! arr]) ob = st"
      by blast
    have ne: "arr \<noteq> obj_arr ob" using lt r by simp
    have m: "load (mutate_list (s @ [s ! arr]) arr xs) ob = st" for xs
      using load_mutate_other[OF ne] l by simp
    have g: "get_array st = s ! arr" using construct_inv[OF c] by (simp add: get_array_def)
    have "(s @ [s ! arr]) ! arr = s ! arr" using lt by (simp add: nth_append)
    with i r c l m g show ?thesis by (intro exI[of _ ob] exI[of _ "s @ [s ! arr]"] exI[of _ st]) simp
  qed
  have b: "\<exists>r s2. obj_get_array s ob = (r, s2) \<and> s2 ! r = get_array (load s ob) \<and>
         r \<noteq> obj_arr ob \<and> load s2 ob = load s ob \<and>
         (\<forall>xs. load (mutate_list s2 r xs) ob = load s ob)" if lt: "obj_arr ob < length s"
    using lt by (simp add: obj_get_array_def copy_list_def load_def mutate_list_def
        get_array_def nth_append)
  have c: "\<exists>e ob' s'. obj_update ar s ob i v = (e, ob', s') \<and>
         (e, load s' ob') = update ar (load s ob) i v \<and>
         obj_arr ob' = obj_arr ob \<and> length s' = length s \<and>
         (\<forall>r. r \<noteq> obj_arr ob \<longrightarrow> s' ! r = s ! r)" if lt: "obj_arr ob < length s"
  proof -
    obtain e st where u: "update ar (load s ob) i v = (e, st)" by (cases "update ar (load s ob) i v")
    then have n: "self_n st = obj_n ob"
      by (auto simp: update_def load_def Let_def split: if_splits prod.splits)
    show ?thesis using lt u n
      by (simp add: obj_update_def load_def)
  qed
  from a b c show ?thesis by blast
qed

theorem defensive_copies_witness:
  "\<exists>ob s1 r s2. init_object exact [[4, 8, 6]] 0 = Inr (ob, s1) \<and>
      load (mutate_list s1 0 [0, 0, 0, 0]) ob = load s1 ob \<and>
      get_array (load (mutate_list s1 0 [0, 0, 0, 0]) ob) = [4, 8, 6] \<and>
      obj_get_array s1 ob = (r, s2) \<and> s2 ! r = [4, 8, 6] \<and>
      load (mutate_list s2 r [1]) ob = load s1 ob"
proof -
  have h: "(0::nat) < length [[4, 8, 6 :: real]]" by simp
  from defensive_copies[where ar = exact and arr = 0 and s = "[[4, 8, 6]]", THEN conjunct1, rule_format, OF h]
  obtain ob s1 st where i: "init_object exact [[4, 8, 6]] 0 = Inr (ob, s1)"
    and l: "load s1 ob = st" and lt: "obj_arr ob < length s1"
    and m: "\<forall>xs. load (mutate_list s1 0 xs) ob = load s1 ob \<and>
               get_array (load (mutate_list s1 0 xs) ob) = [[4, 8, 6]] ! 0"
    by auto
  from defensive_copies[where s = s1 and ob = ob, THEN conjunct2, THEN conjunct1, rule_format, OF lt]
  obtain r s2 where g: "obj_get_array s1 ob = (r, s2)" "s2 ! r = get_array (load s1 ob)"
    "\<forall>xs. load (mutate_list s2 r xs) ob = load s1 ob"
    by auto
  have "get_array (load s1 ob) = [4, 8, 6]"
    using m[rule_format, of "[0, 0, 0, 0]"] by auto
  with i m g show ?thesis by auto
qed

end
